theory Spec2Isabelle
  imports Main "HOL-Library.Word"
begin

section \<open>Data model of the coordinator server list\<close>

text \<open>
  The embedding follows \<^verbatim>\<open>src/CoordinatorServerList.cc\<close>. Methods that mutate the
  object take the list state and return the new one; a thrown exception, a failed
  \<^verbatim>\<open>assert\<close> and an out-of-bounds vector access are values of the type \<open>Error\<close>.
\<close>

datatype ServiceType =
  MASTER_SERVICE | BACKUP_SERVICE | COORDINATOR_SERVICE | PING_SERVICE | MEMBERSHIP_SERVICE

text \<open>
  Modelled from the spec: the class \<^verbatim>\<open>ServiceMask\<close> is declared outside the source file;
  the spec describes it as a set over a fixed universe of services, and
  \<^verbatim>\<open>mask.has(s)\<close> is membership.
\<close>

type_synonym ServiceMask = "ServiceType set"

definition has :: "ServiceMask \<Rightarrow> ServiceType \<Rightarrow> bool" where
  "has m s = (s \<in> m)"

text \<open>
  Modelled from the spec: the class \<^verbatim>\<open>ServerId\<close> is declared outside the source file;
  the spec describes it as a 64-bit composite of a 32-bit slot index and a 32-bit
  generation, two identifiers being equal iff both fields match.
\<close>

record ServerId =
  indexNumber :: "32 word"
  generationNumber :: "32 word"

datatype ServerStatus = UP | CRASHED | DOWN

datatype ServerChangeEvent = SERVER_ADDED | SERVER_CRASHED | SERVER_REMOVED

datatype Error =
  ServerListException      \<comment> \<open>"Invalid ServerId": the spec's UnknownServer\<close>
| IndexBeyondArrayLength   \<comment> \<open>"Index beyond array length": the spec's OutOfRange\<close>
| AssertionFailure         \<comment> \<open>a failed \<^verbatim>\<open>assert\<close>\<close>
| OutOfBoundsAccess        \<comment> \<open>\<^verbatim>\<open>serverList[index]\<close> with index beyond the vector\<close>

text \<open>The fields of \<^verbatim>\<open>ServerDetails\<close> followed by those of \<^verbatim>\<open>Entry\<close>.\<close>

record Entry =
  serverId :: ServerId
  serviceLocator :: string
  services :: ServiceMask
  expectedReadMBytesPerSec :: "32 word"
  status :: ServerStatus
  minOpenSegmentId :: "64 word"
  replicationId :: "64 word"
  serverListVersion :: "64 word"
  isBeingUpdated :: bool
  serverInfoLogId :: "64 word"
  serverUpdateLogId :: "64 word"

text \<open>The three-argument constructor \<^verbatim>\<open>Entry::Entry(serverId, serviceLocator, services)\<close>.\<close>

definition newEntry :: "ServerId \<Rightarrow> string \<Rightarrow> ServiceMask \<Rightarrow> Entry" where
  "newEntry sid locator serviceMask =
     \<lparr> serverId = sid, serviceLocator = locator, services = serviceMask,
       expectedReadMBytesPerSec = 0, status = UP,
       minOpenSegmentId = 0, replicationId = 0, serverListVersion = 0,
       isBeingUpdated = False, serverInfoLogId = 0, serverUpdateLogId = 0 \<rparr>"

text \<open>
  Modelled from the spec: \<^verbatim>\<open>isMaster\<close> and \<^verbatim>\<open>isBackup\<close> are inherited from
  \<^verbatim>\<open>ServerDetails\<close>, declared outside the source file; the spec has the counts follow
  the entry's services.
\<close>

definition isMaster :: "Entry \<Rightarrow> bool" where
  "isMaster e = has (services e) MASTER_SERVICE"

definition isBackup :: "Entry \<Rightarrow> bool" where
  "isBackup e = has (services e) BACKUP_SERVICE"

text \<open>
  One record of the wire format, \<^verbatim>\<open>ProtoBuf::ServerList_Entry\<close>. The packing of the
  identifier into 64 bits and of the service mask into a bit mask happen in classes
  outside the source file; the record keeps the values that are packed.
\<close>

record ServerList_Entry =
  pb_services :: ServiceMask
  pb_server_id :: ServerId
  pb_service_locator :: string
  pb_status :: ServerStatus
  pb_expected_read_mbytes_per_sec :: "32 word"

datatype ServerList_Type = FULL_LIST | UPDATE

text \<open>
  The message \<^verbatim>\<open>ProtoBuf::ServerList\<close>: the repeated field \<open>server\<close>, the version and
  the type (\<open>None\<close> while unset).
\<close>

record ServerList =
  server :: "ServerList_Entry list"
  version_number :: "64 word"
  list_type :: "ServerList_Type option"

definition Clear :: "ServerList" where
  "Clear = \<lparr> server = [], version_number = 0, list_type = None \<rparr>"

text \<open>\<^verbatim>\<open>Entry::serialize\<close>\<close>

definition serialize_entry :: "Entry \<Rightarrow> ServerList_Entry" where
  "serialize_entry e =
     \<lparr> pb_services = services e,
       pb_server_id = serverId e,
       pb_service_locator = serviceLocator e,
       pb_status = status e,
       pb_expected_read_mbytes_per_sec =
         (if isBackup e then expectedReadMBytesPerSec e else 0) \<rparr>"

text \<open>One element of \<open>serverList\<close>: a \<^verbatim>\<open>GenerationNumberEntryPair\<close>.\<close>

record GenerationNumberEntryPair =
  nextGenerationNumber :: "32 word"
  entry :: "Entry option"

definition emptyPair :: GenerationNumberEntryPair where
  "emptyPair = \<lparr> nextGenerationNumber = 0, entry = None \<rparr>"

record ScanMetadata =
  noUpdatesFound :: bool
  searchIndex :: nat
  minVersion :: "64 word"

text \<open>
  The state of a \<^verbatim>\<open>CoordinatorServerList\<close>. \<open>update\<close> is the pending batch, \<open>updates\<close>
  the committed history. The registered trackers are external objects; \<open>trackerChanges\<close>
  records, in order, the calls \<^verbatim>\<open>enqueueChange(entry, event)\<close> that every registered
  tracker receives.
\<close>

record CoordinatorServerList =
  serverList :: "GenerationNumberEntryPair list"
  numberOfMasters :: "32 word"
  numberOfBackups :: "32 word"
  version :: "64 word"
  lastScan :: ScanMetadata
  update :: ServerList
  updates :: "ServerList list"
  trackerChanges :: "(Entry \<times> ServerChangeEvent) list"

text \<open>The list as the constructor leaves it.\<close>

definition initialList :: CoordinatorServerList where
  "initialList =
     \<lparr> serverList = [], numberOfMasters = 0, numberOfBackups = 0, version = 0,
       lastScan = \<lparr> noUpdatesFound = False, searchIndex = 0, minVersion = 0 \<rparr>,
       update = Clear, updates = [], trackerChanges = [] \<rparr>"

text \<open>\<^verbatim>\<open>std::vector::resize\<close>: truncate, or pad with default-constructed pairs.\<close>

definition resize :: "GenerationNumberEntryPair list \<Rightarrow> nat \<Rightarrow> GenerationNumberEntryPair list" where
  "resize sl n = (if n \<le> length sl then take n sl else sl @ replicate (n - length sl) emptyPair)"

section \<open>Operations\<close>

text \<open>\<^verbatim>\<open>commitUpdate\<close>\<close>

definition commitUpdate :: "CoordinatorServerList \<Rightarrow> CoordinatorServerList" where
  "commitUpdate st =
     (if length (server (update st)) = 0 then st
      else
        let version' = version st + 1;
            update' = (update st)\<lparr> version_number := version', list_type := Some UPDATE \<rparr>
        in st\<lparr> version := version',
               updates := updates st @ [update'],
               lastScan := (lastScan st)\<lparr> noUpdatesFound := False \<rparr>,
               update := Clear \<rparr>)"

text \<open>
  The internal \<^verbatim>\<open>add(lock, ...)\<close>. \<^verbatim>\<open>index + 1\<close> is computed in 32 bits, so for the
  index \<open>2^32 - 1\<close> beyond the vector the resize is to length 0 and the access
  \<^verbatim>\<open>serverList[index]\<close> that follows is out of bounds.
\<close>

definition add_locked ::
  "CoordinatorServerList \<Rightarrow> ServerId \<Rightarrow> string \<Rightarrow> ServiceMask \<Rightarrow> 32 word
     \<Rightarrow> Error + CoordinatorServerList" where
  "add_locked st sid locator serviceMask readSpeed =
     (let index = indexNumber sid;
          sl = (if unat index \<ge> length (serverList st)
                then resize (serverList st) (unat (index + 1))
                else serverList st)
      in if unat index \<ge> length sl then Inl OutOfBoundsAccess
         else
           let e0 = newEntry sid locator serviceMask;
               masters = (if has serviceMask MASTER_SERVICE
                          then numberOfMasters st + 1 else numberOfMasters st);
               backups = (if has serviceMask BACKUP_SERVICE
                          then numberOfBackups st + 1 else numberOfBackups st);
               e = (if has serviceMask BACKUP_SERVICE
                    then e0\<lparr> expectedReadMBytesPerSec := readSpeed \<rparr> else e0);
               pair = (sl ! unat index)\<lparr> nextGenerationNumber := generationNumber sid + 1,
                                         entry := Some e \<rparr>
           in Inr (st\<lparr> serverList := list_update sl (unat index) pair,
                       numberOfMasters := masters,
                       numberOfBackups := backups,
                       update := (update st)\<lparr> server := server (update st) @ [serialize_entry e] \<rparr>,
                       trackerChanges := trackerChanges st @ [(e, SERVER_ADDED)] \<rparr>))"

text \<open>The internal \<^verbatim>\<open>crashed(lock, serverId)\<close>.\<close>

definition crashed_locked :: "CoordinatorServerList \<Rightarrow> ServerId \<Rightarrow> Error + CoordinatorServerList" where
  "crashed_locked st sid =
     (let index = unat (indexNumber sid) in
      if index \<ge> length (serverList st) then Inl ServerListException
      else case entry (serverList st ! index) of
        None \<Rightarrow> Inl ServerListException
      | Some e \<Rightarrow>
          if serverId e \<noteq> sid then Inl ServerListException
          else if status e = CRASHED then Inr st
          else if status e = DOWN then Inl AssertionFailure
          else
            let masters = (if isMaster e then numberOfMasters st - 1 else numberOfMasters st);
                backups = (if isBackup e then numberOfBackups st - 1 else numberOfBackups st);
                e' = e\<lparr> status := CRASHED \<rparr>
            in Inr (st\<lparr> serverList := list_update (serverList st) index
                                        ((serverList st ! index)\<lparr> entry := Some e' \<rparr>),
                        numberOfMasters := masters,
                        numberOfBackups := backups,
                        update := (update st)\<lparr> server := server (update st) @ [serialize_entry e'] \<rparr>,
                        trackerChanges := trackerChanges st @ [(e', SERVER_CRASHED)] \<rparr>))"

text \<open>
  The internal \<^verbatim>\<open>remove(lock, serverId)\<close>: the same check as \<open>crashed_locked\<close>, the call of
  \<open>crashed_locked\<close>, then the DOWN record, the destruction of the entry and the
  notification with the copy taken before the destruction.
\<close>

definition remove_locked :: "CoordinatorServerList \<Rightarrow> ServerId \<Rightarrow> Error + CoordinatorServerList" where
  "remove_locked st sid =
     (let index = unat (indexNumber sid) in
      if index \<ge> length (serverList st) then Inl ServerListException
      else case entry (serverList st ! index) of
        None \<Rightarrow> Inl ServerListException
      | Some e0 \<Rightarrow>
          if serverId e0 \<noteq> sid then Inl ServerListException
          else (case crashed_locked st sid of
            Inl err \<Rightarrow> Inl err
          | Inr st1 \<Rightarrow>
             (case entry (serverList st1 ! index) of
                None \<Rightarrow> Inl OutOfBoundsAccess
              | Some e1 \<Rightarrow>
                  let removedEntry = e1\<lparr> status := DOWN \<rparr>
                  in Inr (st1\<lparr> serverList := list_update (serverList st1) index
                                   ((serverList st1 ! index)\<lparr> entry := None \<rparr>),
                               update := (update st1)\<lparr> server := server (update st1)
                                                          @ [serialize_entry removedEntry] \<rparr>,
                               trackerChanges := trackerChanges st1
                                                   @ [(removedEntry, SERVER_REMOVED)] \<rparr>))))"

text \<open>The public methods: the internal one under the lock, then \<open>commitUpdate\<close>.\<close>

definition add ::
  "CoordinatorServerList \<Rightarrow> ServerId \<Rightarrow> string \<Rightarrow> ServiceMask \<Rightarrow> 32 word
     \<Rightarrow> Error + CoordinatorServerList" where
  "add st sid locator serviceMask readSpeed =
     (case add_locked st sid locator serviceMask readSpeed of
        Inl err \<Rightarrow> Inl err
      | Inr st' \<Rightarrow> Inr (commitUpdate st'))"

definition crashed :: "CoordinatorServerList \<Rightarrow> ServerId \<Rightarrow> Error + CoordinatorServerList" where
  "crashed st sid =
     (case crashed_locked st sid of Inl err \<Rightarrow> Inl err | Inr st' \<Rightarrow> Inr (commitUpdate st'))"

definition remove :: "CoordinatorServerList \<Rightarrow> ServerId \<Rightarrow> Error + CoordinatorServerList" where
  "remove st sid =
     (case remove_locked st sid of Inl err \<Rightarrow> Inl err | Inr st' \<Rightarrow> Inr (commitUpdate st'))"

text \<open>
  The scan of \<^verbatim>\<open>firstFreeIndex\<close>:
  \<^verbatim>\<open>for (index = 1; index < serverList.size(); index++) if (!serverList[index].entry) break;\<close>
\<close>

function firstFreeIndex_loop :: "GenerationNumberEntryPair list \<Rightarrow> nat \<Rightarrow> nat" where
  "firstFreeIndex_loop sl index =
     (if index < length sl \<and> entry (sl ! index) \<noteq> None
      then firstFreeIndex_loop sl (index + 1) else index)"
  by pat_completeness auto
termination
  by (relation "measure (\<lambda>(sl, index). length sl - index)") auto

declare firstFreeIndex_loop.simps [simp del]

text \<open>
  \<^verbatim>\<open>firstFreeIndex\<close>: the scan, the resize when the list is full, \<^verbatim>\<open>assert(index != 0)\<close>
  and \<^verbatim>\<open>downCast<uint32_t>(index)\<close>, which asserts that the index fits 32 bits.
\<close>

definition firstFreeIndex ::
  "CoordinatorServerList \<Rightarrow> Error + (32 word \<times> CoordinatorServerList)" where
  "firstFreeIndex st =
     (let index = firstFreeIndex_loop (serverList st) 1;
          sl = (if index \<ge> length (serverList st)
                then resize (serverList st) (index + 1) else serverList st)
      in if index = 0 then Inl AssertionFailure
         else if index \<ge> 2 ^ 32 then Inl AssertionFailure
         else Inr (word_of_nat index, st\<lparr> serverList := sl \<rparr>))"

text \<open>\<^verbatim>\<open>generateUniqueId\<close>\<close>

definition generateUniqueId ::
  "CoordinatorServerList \<Rightarrow> Error + (ServerId \<times> CoordinatorServerList)" where
  "generateUniqueId st =
     (case firstFreeIndex st of
        Inl err \<Rightarrow> Inl err
      | Inr (index, st1) \<Rightarrow>
          let pair = serverList st1 ! unat index;
              sid = \<lparr> indexNumber = index, generationNumber = nextGenerationNumber pair \<rparr>;
              pair' = pair\<lparr> nextGenerationNumber := nextGenerationNumber pair + 1,
                            entry := Some (newEntry sid [] {}) \<rparr>
          in Inr (sid, st1\<lparr> serverList := list_update (serverList st1) (unat index) pair' \<rparr>))"

text \<open>\<^verbatim>\<open>getReferenceFromServerId\<close>\<close>

definition getReferenceFromServerId :: "CoordinatorServerList \<Rightarrow> ServerId \<Rightarrow> Error + Entry" where
  "getReferenceFromServerId st sid =
     (let index = unat (indexNumber sid) in
      if index < length (serverList st) then
        (case entry (serverList st ! index) of
           None \<Rightarrow> Inl ServerListException
         | Some e \<Rightarrow> if serverId e = sid then Inr e else Inl ServerListException)
      else Inl ServerListException)"

text \<open>
  The setters write through the reference that \<open>getReferenceFromServerId\<close> returned,
  that is, into the entry of the slot \<open>indexNumber sid\<close>.
\<close>

definition writeEntry :: "CoordinatorServerList \<Rightarrow> ServerId \<Rightarrow> Entry \<Rightarrow> CoordinatorServerList" where
  "writeEntry st sid e =
     (let index = unat (indexNumber sid) in
      st\<lparr> serverList := list_update (serverList st) index
                           ((serverList st ! index)\<lparr> entry := Some e \<rparr>) \<rparr>)"

definition setMinOpenSegmentId ::
  "CoordinatorServerList \<Rightarrow> ServerId \<Rightarrow> 64 word \<Rightarrow> Error + CoordinatorServerList" where
  "setMinOpenSegmentId st sid segmentId =
     (case getReferenceFromServerId st sid of
        Inl err \<Rightarrow> Inl err
      | Inr e \<Rightarrow> Inr (if minOpenSegmentId e < segmentId
                       then writeEntry st sid (e\<lparr> minOpenSegmentId := segmentId \<rparr>)
                       else st))"

definition setReplicationId ::
  "CoordinatorServerList \<Rightarrow> ServerId \<Rightarrow> 64 word \<Rightarrow> Error + CoordinatorServerList" where
  "setReplicationId st sid replicationId' =
     (case getReferenceFromServerId st sid of
        Inl err \<Rightarrow> Inl err
      | Inr e \<Rightarrow> Inr (writeEntry st sid (e\<lparr> replicationId := replicationId' \<rparr>)))"

definition addServerInfoLogId ::
  "CoordinatorServerList \<Rightarrow> ServerId \<Rightarrow> 64 word \<Rightarrow> Error + CoordinatorServerList" where
  "addServerInfoLogId st sid entryId =
     (case getReferenceFromServerId st sid of
        Inl err \<Rightarrow> Inl err
      | Inr e \<Rightarrow> Inr (writeEntry st sid (e\<lparr> serverInfoLogId := entryId \<rparr>)))"

definition getServerInfoLogId :: "CoordinatorServerList \<Rightarrow> ServerId \<Rightarrow> Error + 64 word" where
  "getServerInfoLogId st sid =
     (case getReferenceFromServerId st sid of
        Inl err \<Rightarrow> Inl err
      | Inr e \<Rightarrow> Inr (serverInfoLogId e))"

definition addServerUpdateLogId ::
  "CoordinatorServerList \<Rightarrow> ServerId \<Rightarrow> 64 word \<Rightarrow> Error + CoordinatorServerList" where
  "addServerUpdateLogId st sid entryId =
     (case getReferenceFromServerId st sid of
        Inl err \<Rightarrow> Inl err
      | Inr e \<Rightarrow> Inr (writeEntry st sid (e\<lparr> serverUpdateLogId := entryId \<rparr>)))"

definition getServerUpdateLogId :: "CoordinatorServerList \<Rightarrow> ServerId \<Rightarrow> Error + 64 word" where
  "getServerUpdateLogId st sid =
     (case getReferenceFromServerId st sid of
        Inl err \<Rightarrow> Inl err
      | Inr e \<Rightarrow> Inr (serverUpdateLogId e))"

text \<open>
  \<^verbatim>\<open>at(const ServerId&)\<close> and \<^verbatim>\<open>operator[](const ServerId&)\<close> have the same body, as have
  \<^verbatim>\<open>at(size_t)\<close> and \<^verbatim>\<open>operator[](size_t)\<close>.
\<close>

definition at_serverId :: "CoordinatorServerList \<Rightarrow> ServerId \<Rightarrow> Error + Entry" where
  "at_serverId st sid = getReferenceFromServerId st sid"

definition at_index :: "CoordinatorServerList \<Rightarrow> nat \<Rightarrow> Error + Entry option" where
  "at_index st index =
     (if index \<ge> length (serverList st) then Inl IndexBeyondArrayLength
      else Inr (entry (serverList st ! index)))"

definition masterCount :: "CoordinatorServerList \<Rightarrow> 32 word" where
  "masterCount st = numberOfMasters st"

definition backupCount :: "CoordinatorServerList \<Rightarrow> 32 word" where
  "backupCount st = numberOfBackups st"

text \<open>The loop of \<^verbatim>\<open>serialize(lock, protoBuf, services)\<close> over the slots.\<close>

fun serialize_loop :: "GenerationNumberEntryPair list \<Rightarrow> ServiceMask \<Rightarrow> ServerList_Entry list" where
  "serialize_loop [] wanted = []"
| "serialize_loop (p # ps) wanted =
     (case entry p of
        None \<Rightarrow> serialize_loop ps wanted
      | Some e \<Rightarrow>
          if (has (services e) MASTER_SERVICE \<and> has wanted MASTER_SERVICE) \<or>
             (has (services e) BACKUP_SERVICE \<and> has wanted BACKUP_SERVICE)
          then serialize_entry e # serialize_loop ps wanted
          else serialize_loop ps wanted)"

definition serialize :: "CoordinatorServerList \<Rightarrow> ServerList \<Rightarrow> ServiceMask \<Rightarrow> ServerList" where
  "serialize st protoBuf wanted =
     protoBuf\<lparr> server := server protoBuf @ serialize_loop (serverList st) wanted,
               version_number := version st,
               list_type := Some FULL_LIST \<rparr>"

text \<open>The two-argument \<^verbatim>\<open>serialize\<close>: the filter is MASTER and BACKUP.\<close>

definition serialize_all :: "CoordinatorServerList \<Rightarrow> ServerList \<Rightarrow> ServerList" where
  "serialize_all st protoBuf = serialize st protoBuf {MASTER_SERVICE, BACKUP_SERVICE}"

text \<open>\<^verbatim>\<open>isClusterUpToDate\<close>: the scan returns false at the first lagging entry.\<close>

fun isClusterUpToDate_loop :: "64 word \<Rightarrow> GenerationNumberEntryPair list \<Rightarrow> bool" where
  "isClusterUpToDate_loop v [] = True"
| "isClusterUpToDate_loop v (p # ps) =
     (case entry p of
        None \<Rightarrow> isClusterUpToDate_loop v ps
      | Some e \<Rightarrow>
          if has (services e) MEMBERSHIP_SERVICE \<and> status e = UP \<and>
             (serverListVersion e \<noteq> v \<or> isBeingUpdated e = True)
          then False
          else isClusterUpToDate_loop v ps)"

definition isClusterUpToDate :: "CoordinatorServerList \<Rightarrow> bool" where
  "isClusterUpToDate st = isClusterUpToDate_loop (version st) (serverList st)"

text \<open>\<^verbatim>\<open>updateEntryVersion\<close>: the updater's report; an unknown id is ignored.\<close>

definition updateEntryVersion ::
  "CoordinatorServerList \<Rightarrow> ServerId \<Rightarrow> 64 word \<Rightarrow> CoordinatorServerList" where
  "updateEntryVersion st sid v =
     (case getReferenceFromServerId st sid of
        Inl err \<Rightarrow> st
      | Inr e \<Rightarrow>
          let st1 = writeEntry st sid (e\<lparr> serverListVersion := v, isBeingUpdated := False \<rparr>)
          in if v < version st
             then st1\<lparr> lastScan := (lastScan st1)\<lparr> noUpdatesFound := False \<rparr> \<rparr>
             else st1)"

text \<open>
  \<^verbatim>\<open>sync\<close> evaluates \<open>isClusterUpToDate\<close> under the lock, and waits on the condition
  variable while it is false; the wait releases the lock, other threads change the
  list, and the condition is evaluated again on the list as it is after the wake-up.
  The argument is the sequence of lists that \<open>sync\<close> sees at its successive
  evaluations of the condition. The result is the list with which \<open>sync\<close> returns,
  \<open>None\<close> while none of them lets it return.
\<close>

fun sync :: "CoordinatorServerList list \<Rightarrow> CoordinatorServerList option" where
  "sync [] = None"
| "sync (st # sts) = (if \<not> isClusterUpToDate st then sync sts else Some st)"

section \<open>Sequences of public calls\<close>

datatype Op =
  Add ServerId string ServiceMask "32 word"
| Crashed ServerId
| Remove ServerId
| GenerateUniqueId
| SetMinOpenSegmentId ServerId "64 word"
| SetReplicationId ServerId "64 word"
| AddServerInfoLogId ServerId "64 word"
| AddServerUpdateLogId ServerId "64 word"

fun apply_op :: "Op \<Rightarrow> CoordinatorServerList \<Rightarrow> Error + CoordinatorServerList" where
  "apply_op (Add sid locator serviceMask readSpeed) st = add st sid locator serviceMask readSpeed"
| "apply_op (Crashed sid) st = crashed st sid"
| "apply_op (Remove sid) st = remove st sid"
| "apply_op GenerateUniqueId st =
     (case generateUniqueId st of Inl err \<Rightarrow> Inl err | Inr (sid, st') \<Rightarrow> Inr st')"
| "apply_op (SetMinOpenSegmentId sid v) st = setMinOpenSegmentId st sid v"
| "apply_op (SetReplicationId sid v) st = setReplicationId st sid v"
| "apply_op (AddServerInfoLogId sid v) st = addServerInfoLogId st sid v"
| "apply_op (AddServerUpdateLogId sid v) st = addServerUpdateLogId st sid v"

text \<open>
  A sequence of calls. A \<open>ServerListException\<close> is thrown before the list is
  touched and reaches the caller, who goes on with the list as it was; the other
  errors end the process.
\<close>

fun run :: "Op list \<Rightarrow> CoordinatorServerList \<Rightarrow> CoordinatorServerList option" where
  "run [] st = Some st"
| "run (c # cs) st =
     (case apply_op c st of
        Inr st' \<Rightarrow> run cs st'
      | Inl ServerListException \<Rightarrow> run cs st
      | Inl err \<Rightarrow> None)"

section \<open>Definitions used by the properties\<close>

text \<open>
  The scenario "reuse after remove": on the empty list, \<open>add\<close> of the identifier
  (1,0), \<open>remove\<close> of it, then \<open>generateUniqueId\<close>. The result is the identifier
  generated and the list at the end.
\<close>

definition reuse_after_remove ::
  "string \<Rightarrow> ServiceMask \<Rightarrow> 32 word \<Rightarrow> Error + (ServerId \<times> CoordinatorServerList)" where
  "reuse_after_remove locator serviceMask readSpeed =
     (let id1 = \<lparr> indexNumber = 1, generationNumber = 0 \<rparr> in
      case add initialList id1 locator serviceMask readSpeed of
        Inl err \<Rightarrow> Inl err
      | Inr st1 \<Rightarrow>
         (case remove st1 id1 of
            Inl err \<Rightarrow> Inl err
          | Inr st2 \<Rightarrow> generateUniqueId st2))"

text \<open>
  The history is sorted strictly by version, and no batch of it is newer than the
  committed version.
\<close>

definition history_sorted :: "CoordinatorServerList \<Rightarrow> bool" where
  "history_sorted st =
     (sorted_wrt (<) (map version_number (updates st)) \<and>
      list_all (\<lambda>b. version_number b \<le> version st) (updates st))"

text \<open>
  A list with one committed batch and one pending record: a master is added by the
  public \<open>add\<close>, then marked crashed by the internal \<open>crashed_locked\<close>, before the commit.
\<close>

definition pendingCrash :: CoordinatorServerList where
  "pendingCrash =
     (let id1 = \<lparr> indexNumber = 1, generationNumber = 0 \<rparr> in
      case add initialList id1 ''tcp:a'' {MASTER_SERVICE} 0 of
        Inl err \<Rightarrow> initialList
      | Inr st1 \<Rightarrow> (case crashed_locked st1 id1 of Inl err \<Rightarrow> initialList | Inr st2 \<Rightarrow> st2))"

text \<open>
  The events that the trackers receive between the list \<open>st\<close> and the later list \<open>st'\<close>.
\<close>

definition delivered :: "CoordinatorServerList \<Rightarrow> CoordinatorServerList \<Rightarrow> ServerChangeEvent list" where
  "delivered st st' = map snd (drop (length (trackerChanges st)) (trackerChanges st'))"

text \<open>
  Lists and identifiers of the examples: the identifier (1,0), the list after
  \<open>add\<close> of a master with the membership service under it, and that list after
  \<open>crashed\<close>.
\<close>

definition id_1_0 :: ServerId where
  "id_1_0 = \<lparr> indexNumber = 1, generationNumber = 0 \<rparr>"

definition oneMasterUp :: CoordinatorServerList where
  "oneMasterUp =
     (case add initialList id_1_0 ''tcp:a'' {MASTER_SERVICE, MEMBERSHIP_SERVICE} 0 of
        Inl err \<Rightarrow> initialList | Inr st \<Rightarrow> st)"

definition oneMasterCrashed :: CoordinatorServerList where
  "oneMasterCrashed =
     (case crashed oneMasterUp id_1_0 of Inl err \<Rightarrow> initialList | Inr st \<Rightarrow> st)"

text \<open>
  The sequence \<open>crashed(id); crashed(id)\<close>.
\<close>

definition crashed_twice :: "CoordinatorServerList \<Rightarrow> ServerId \<Rightarrow> Error + CoordinatorServerList" where
  "crashed_twice st sid =
     (case crashed st sid of Inl err \<Rightarrow> Inl err | Inr st1 \<Rightarrow> crashed st1 sid)"

text \<open>
  The records that \<open>remove\<close> appends for an entry: the CRASHED record that the inner
  call of \<open>crashed_locked\<close> appends when the entry is UP, then the DOWN record.
\<close>

definition removal_records :: "Entry \<Rightarrow> ServerList_Entry list" where
  "removal_records e =
     (if status e = UP then [serialize_entry (e\<lparr> status := CRASHED \<rparr>)] else [])
       @ [serialize_entry (e\<lparr> status := DOWN \<rparr>)]"

text \<open>
  The entry that \<open>add\<close> installs in \<open>oneMasterUp\<close>.
\<close>

definition upEntry :: Entry where
  "upEntry = newEntry id_1_0 ''tcp:a'' {MASTER_SERVICE, MEMBERSHIP_SERVICE}"

text \<open>
  Invariant I1: the entry of every occupied slot carries the slot's index in its id.
\<close>

definition slots_indexed :: "CoordinatorServerList \<Rightarrow> bool" where
  "slots_indexed st =
     list_all (\<lambda>(i, p). case entry p of None \<Rightarrow> True
                                     | Some e \<Rightarrow> unat (indexNumber (serverId e)) = i)
       (zip [0 ..< length (serverList st)] (serverList st))"

text \<open>
  Some occupied slot holds an entry whose id, index and generation, is \<open>sid\<close>.
\<close>

definition holds_id :: "CoordinatorServerList \<Rightarrow> ServerId \<Rightarrow> bool" where
  "holds_id st sid =
     list_ex (\<lambda>p. case entry p of None \<Rightarrow> False | Some e \<Rightarrow> serverId e = sid) (serverList st)"

text \<open>
  What \<open>isClusterUpToDate\<close> asks of one slot.
\<close>

definition up_to_date_entry :: "64 word \<Rightarrow> GenerationNumberEntryPair \<Rightarrow> bool" where
  "up_to_date_entry v p =
     (case entry p of
        None \<Rightarrow> True
      | Some e \<Rightarrow> status e = UP \<and> has (services e) MEMBERSHIP_SERVICE
                    \<longrightarrow> serverListVersion e = v \<and> \<not> isBeingUpdated e)"

text \<open>
  The identifier (1,1): the slot of (1,0), another generation.
\<close>

definition id_1_1 :: ServerId where
  "id_1_1 = \<lparr> indexNumber = 1, generationNumber = 1 \<rparr>"

text \<open>
  The list \<open>oneMasterUp\<close> after the updater has reported that the server acknowledged version 1.
\<close>

definition oneMasterAcked :: CoordinatorServerList where
  "oneMasterAcked = updateEntryVersion oneMasterUp id_1_0 1"

text \<open>
  The slot holds an entry with status UP that has the service \<open>s\<close>; \<open>count_up\<close> is
  the number of such slots.
\<close>

definition up_with :: "ServiceType \<Rightarrow> GenerationNumberEntryPair \<Rightarrow> bool" where
  "up_with s p = (case entry p of None \<Rightarrow> False | Some e \<Rightarrow> status e = UP \<and> has (services e) s)"

definition count_up :: "ServiceType \<Rightarrow> GenerationNumberEntryPair list \<Rightarrow> nat" where
  "count_up s sl = length (filter (up_with s) sl)"

text \<open>
  Invariant I3: each of the two counts is the number of UP entries with that service
  (the counts are 32-bit, so the number is taken modulo \<open>2^32\<close>).
\<close>

definition counts_agree :: "CoordinatorServerList \<Rightarrow> bool" where
  "counts_agree st =
     (masterCount st = word_of_nat (count_up MASTER_SERVICE (serverList st)) \<and>
      backupCount st = word_of_nat (count_up BACKUP_SERVICE (serverList st)))"

text \<open>
  The call, when it is an \<open>add\<close>, targets a slot that is beyond the table, or empty, or
  holds an entry that is counted neither as a master nor as a backup (such as the
  placeholder of \<open>generateUniqueId\<close>, or a crashed server); \<open>adds_on_uncounted\<close> asks
  it of every call of a sequence, at the list the call runs on.
\<close>

fun add_on_uncounted :: "Op \<Rightarrow> CoordinatorServerList \<Rightarrow> bool" where
  "add_on_uncounted (Add sid locator serviceMask readSpeed) st =
     (if unat (indexNumber sid) < length (serverList st)
      then \<not> up_with MASTER_SERVICE (serverList st ! unat (indexNumber sid)) \<and>
           \<not> up_with BACKUP_SERVICE (serverList st ! unat (indexNumber sid))
      else True)"
| "add_on_uncounted c st = True"

fun adds_on_uncounted :: "Op list \<Rightarrow> CoordinatorServerList \<Rightarrow> bool" where
  "adds_on_uncounted [] st = True"
| "adds_on_uncounted (c # cs) st =
     (add_on_uncounted c st \<and>
      (case apply_op c st of
         Inr st' \<Rightarrow> adds_on_uncounted cs st'
       | Inl ServerListException \<Rightarrow> adds_on_uncounted cs st
       | Inl err \<Rightarrow> True))"

text \<open>
  The entry that \<open>add\<close> installs.
\<close>

definition added_entry :: "ServerId \<Rightarrow> string \<Rightarrow> ServiceMask \<Rightarrow> 32 word \<Rightarrow> Entry" where
  "added_entry sid locator serviceMask readSpeed =
     (if has serviceMask BACKUP_SERVICE
      then (newEntry sid locator serviceMask)\<lparr> expectedReadMBytesPerSec := readSpeed \<rparr>
      else newEntry sid locator serviceMask)"

text \<open>
  An enlistment: \<open>generateUniqueId\<close>, \<open>add\<close> of a master and backup under the identifier
  generated, \<open>crashed\<close>. \<open>reserved\<close> is the list after the first call, \<open>enlisted\<close> the
  list after the second.
\<close>

definition enlist_calls :: "Op list" where
  "enlist_calls =
     [GenerateUniqueId,
      Add id_1_0 ''tcp:a'' {MASTER_SERVICE, BACKUP_SERVICE} 100,
      Crashed id_1_0]"

definition reserved :: CoordinatorServerList where
  "reserved = initialList\<lparr> serverList :=
      [emptyPair, \<lparr> nextGenerationNumber = 1, entry = Some (newEntry id_1_0 [] {}) \<rparr>] \<rparr>"

definition enlisted :: CoordinatorServerList where
  "enlisted = (case add reserved id_1_0 ''tcp:a'' {MASTER_SERVICE, BACKUP_SERVICE} 100 of
                 Inl err \<Rightarrow> reserved | Inr st \<Rightarrow> st)"

text \<open>
  The same master added twice under the same identifier.
\<close>

definition double_add :: "Op list" where
  "double_add = [Add id_1_0 ''tcp:a'' {MASTER_SERVICE} 0, Add id_1_0 ''tcp:a'' {MASTER_SERVICE} 0]"

text \<open>
  The next generation number of the slot \<open>j\<close> of a table; a slot beyond the table is
  default-constructed, with next generation number 0, when the table grows.
\<close>

definition slot_generation :: "GenerationNumberEntryPair list \<Rightarrow> nat \<Rightarrow> 32 word" where
  "slot_generation sl j = (if j < length sl then nextGenerationNumber (sl ! j) else 0)"

text \<open>
  The next generation number of the slot with the given index in a list.
\<close>

definition nextGenerationOf :: "32 word \<Rightarrow> CoordinatorServerList \<Rightarrow> 32 word" where
  "nextGenerationOf index st = slot_generation (serverList st) (unat index)"

text \<open>
  The spec's words for the next generation number after \<open>add\<close>: the maximum of the
  number before the call and the generation of the id plus one.
\<close>

definition spec_next_generation :: "32 word \<Rightarrow> ServerId \<Rightarrow> 32 word" where
  "spec_next_generation before sid = max before (generationNumber sid + 1)"

text \<open>
  Slot 1 is issued twice and released twice, which leaves its next generation number at
  2; then (\<open>regress_calls\<close>) a server is added under the first identifier, (1,0), and
  removed, and the slot is issued again.
\<close>

definition regress_setup :: "Op list" where
  "regress_setup =
     [GenerateUniqueId, Remove id_1_0, GenerateUniqueId, Remove id_1_1]"

definition regress_calls :: "Op list" where
  "regress_calls =
     regress_setup @ [Add id_1_0 ''tcp:a'' {MASTER_SERVICE} 0, Remove id_1_0, GenerateUniqueId]"

text \<open>
  A server enlists under a generated identifier and is removed; the slot is issued again.
\<close>

definition reenlist_calls :: "Op list" where
  "reenlist_calls =
     [GenerateUniqueId, Add id_1_0 ''tcp:a'' {MASTER_SERVICE} 0, Remove id_1_0, GenerateUniqueId]"

text \<open>
  The call keeps the generations of the slots growing: an \<open>add\<close> whose identifier is not
  older than the slot's next generation number requires, and a \<open>generateUniqueId\<close> that
  does not issue the last generation, \<open>2^32 - 1\<close>, after which the counter wraps
  around. \<open>generations_kept\<close> asks it of every call of a sequence, at the list the call
  runs on.
\<close>

fun keeps_generation :: "Op \<Rightarrow> CoordinatorServerList \<Rightarrow> bool" where
  "keeps_generation (Add sid locator serviceMask readSpeed) st =
     (nextGenerationOf (indexNumber sid) st \<le> generationNumber sid + 1)"
| "keeps_generation GenerateUniqueId st =
     (case generateUniqueId st of
        Inr (sid, st') \<Rightarrow> generationNumber sid \<noteq> - 1
      | Inl err \<Rightarrow> True)"
| "keeps_generation c st = True"

fun generations_kept :: "Op list \<Rightarrow> CoordinatorServerList \<Rightarrow> bool" where
  "generations_kept [] st = True"
| "generations_kept (c # cs) st =
     (keeps_generation c st \<and>
      (case apply_op c st of
         Inr st' \<Rightarrow> generations_kept cs st'
       | Inl ServerListException \<Rightarrow> generations_kept cs st
       | Inl err \<Rightarrow> True))"

text \<open>
  The identifiers that the calls of \<open>generateUniqueId\<close> in a sequence return, in order.
\<close>

fun issued :: "Op list \<Rightarrow> CoordinatorServerList \<Rightarrow> ServerId list" where
  "issued [] st = []"
| "issued (GenerateUniqueId # cs) st =
     (case generateUniqueId st of
        Inr (sid, st') \<Rightarrow> sid # issued cs st'
      | Inl err \<Rightarrow> [])"
| "issued (c # cs) st =
     (case apply_op c st of
        Inr st' \<Rightarrow> issued cs st'
      | Inl ServerListException \<Rightarrow> issued cs st
      | Inl err \<Rightarrow> [])"

text \<open>
  Of two identifiers of the same slot, the second has the greater generation.
\<close>

definition generation_order :: "ServerId \<Rightarrow> ServerId \<Rightarrow> bool" where
  "generation_order a b = (indexNumber a = indexNumber b \<longrightarrow> generationNumber a < generationNumber b)"

text \<open>
  Invariant I1 for one slot, and for a table.
\<close>

definition slot_indexed :: "nat \<Rightarrow> GenerationNumberEntryPair \<Rightarrow> bool" where
  "slot_indexed j p =
     (case entry p of None \<Rightarrow> True | Some e \<Rightarrow> unat (indexNumber (serverId e)) = j)"

definition table_indexed :: "GenerationNumberEntryPair list \<Rightarrow> bool" where
  "table_indexed sl = list_all (\<lambda>(j, p). slot_indexed j p) (zip [0 ..< length sl] sl)"

section \<open>Properties\<close>

subsection \<open>Auxiliary facts\<close>

lemma firstFreeIndex_loop_stop:
  "\<not> (index < length sl \<and> entry (sl ! index) \<noteq> None) \<Longrightarrow> firstFreeIndex_loop sl index = index"
  by (simp add: firstFreeIndex_loop.simps)

lemma firstFreeIndex_loop_step:
  "index < length sl \<Longrightarrow> entry (sl ! index) \<noteq> None \<Longrightarrow>
   firstFreeIndex_loop sl index = firstFreeIndex_loop sl (Suc index)"
  by (subst firstFreeIndex_loop.simps) simp

lemma word_less_succ:
  fixes x :: "'a::len word"
  assumes "x \<noteq> - 1"
  shows "x < x + 1"
proof -
  have "1 + x \<noteq> 0"
    using assms max_word_wrap [of x] by (auto simp: add.commute)
  then have "unat (1 + x) = Suc (unat x)"
    by (rule unatSuc)
  then show ?thesis
    by (simp add: word_less_nat_alt add.commute)
qed

lemma sorted_wrt_snoc_less:
  fixes vs :: "'a::len word list"
  assumes "sorted_wrt (<) vs" and "\<forall>x\<in>set vs. x < v"
  shows "sorted_wrt (<) (vs @ [v])"
  using assms by (simp add: sorted_wrt_append)

lemma history_sorted_commitUpdate:
  assumes h: "history_sorted st" and nomax: "version st \<noteq> - 1"
  shows "history_sorted (commitUpdate st)"
proof (cases "server (update st) = []")
  case True
  then show ?thesis using h by (simp add: commitUpdate_def)
next
  case False
  have lt: "version st < version st + 1"
    using nomax by (rule word_less_succ)
  have below: "\<forall>b\<in>set (updates st). version_number b \<le> version st"
    using h by (simp add: history_sorted_def list_all_iff)
  then have below': "\<forall>x\<in>set (map version_number (updates st)). x < version st + 1"
    using lt by auto
  have "sorted_wrt (<) (map version_number (updates st) @ [version st + 1])"
    using h below' by (intro sorted_wrt_snoc_less) (simp_all add: history_sorted_def)
  moreover have "\<forall>b\<in>set (updates st). version_number b \<le> version st + 1"
    using below lt by (meson less_imp_le order_trans)
  ultimately show ?thesis
    using False by (simp add: commitUpdate_def history_sorted_def list_all_iff Let_def)
qed

subsection \<open>The scenario "reuse after remove"\<close>

text \<open>
  Claim C4, as amended. On the empty list, after \<open>add\<close> of (1,0), \<open>remove\<close> of (1,0) and
  \<open>generateUniqueId\<close>, the committed version is 2, whatever the locator, the services
  and the read speed of the server added: one version for the batch of the \<open>add\<close>, one
  for the batch of the \<open>remove\<close>, which holds both the CRASHED and the DOWN record;
  \<open>generateUniqueId\<close> commits nothing. The identifier generated is (1,1).
\<close>

theorem reuse_after_remove_version:
  "map_sum id (version \<circ> snd) (reuse_after_remove locator serviceMask readSpeed) = Inr 2 \<and>
   map_sum id fst (reuse_after_remove locator serviceMask readSpeed)
     = Inr \<lparr> indexNumber = 1, generationNumber = 1 \<rparr>"
  by (simp add: reuse_after_remove_def add_def add_locked_def remove_def remove_locked_def
      crashed_locked_def commitUpdate_def generateUniqueId_def firstFreeIndex_def
      firstFreeIndex_loop_stop initialList_def resize_def emptyPair_def newEntry_def Clear_def
      Let_def)

text \<open>
  Claim C4 as stated asserts that the committed version is 3 at the end of the
  scenario. For a master with the membership service it is not 3.
\<close>

theorem reuse_after_remove_version_counterexample:
  "map_sum id (version \<circ> snd)
     (reuse_after_remove ''tcp:a'' {MASTER_SERVICE, MEMBERSHIP_SERVICE} 0) \<noteq> Inr 3"
  by (simp add: reuse_after_remove_def add_def add_locked_def remove_def remove_locked_def
      crashed_locked_def commitUpdate_def generateUniqueId_def firstFreeIndex_def
      firstFreeIndex_loop_stop initialList_def resize_def emptyPair_def newEntry_def Clear_def
      Let_def)

subsection \<open>commitUpdate\<close>

text \<open>
  Claim C5. With no pending record \<open>commitUpdate\<close> returns the list as it is. Otherwise
  the committed version grows by one, the pending batch, tagged with the new version
  (and the type UPDATE), is appended at the back of the history, and the pending batch
  is cleared; a history that is sorted strictly by version, with no batch newer than
  the committed version, stays so, as long as the 64-bit version does not wrap around.
\<close>

theorem commitUpdate_batches:
  "(server (update st) = [] \<longrightarrow> commitUpdate st = st) \<and>
   (server (update st) \<noteq> [] \<longrightarrow>
      version (commitUpdate st) = version st + 1 \<and>
      updates (commitUpdate st) =
        updates st @ [(update st)\<lparr> version_number := version st + 1, list_type := Some UPDATE \<rparr>] \<and>
      update (commitUpdate st) = Clear \<and>
      (history_sorted st \<and> version st \<noteq> - 1 \<longrightarrow> history_sorted (commitUpdate st)))"
proof (cases "server (update st) = []")
  case True
  then show ?thesis by (simp add: commitUpdate_def)
next
  case False
  have v: "version (commitUpdate st) = version st + 1"
    using False by (simp add: commitUpdate_def Let_def)
  have h: "updates (commitUpdate st) =
      updates st @ [(update st)\<lparr> version_number := version st + 1, list_type := Some UPDATE \<rparr>]"
    using False by (simp add: commitUpdate_def Let_def)
  have p: "update (commitUpdate st) = Clear"
    using False by (simp add: commitUpdate_def Let_def)
  have s: "history_sorted st \<and> version st \<noteq> - 1 \<longrightarrow> history_sorted (commitUpdate st)"
    using history_sorted_commitUpdate by blast
  from False v h p s show ?thesis by blast
qed

lemma pendingCrash_unfold:
  "version pendingCrash = 1 \<and> map version_number (updates pendingCrash) = [1] \<and>
   map pb_status (server (update pendingCrash)) = [CRASHED]"
  by (simp add: pendingCrash_def add_def add_locked_def crashed_locked_def commitUpdate_def
      initialList_def resize_def emptyPair_def newEntry_def Clear_def serialize_entry_def
      isMaster_def isBackup_def has_def Let_def)

theorem commitUpdate_batches_witness:
  "server (update pendingCrash) \<noteq> [] \<and> history_sorted pendingCrash \<and>
   version pendingCrash \<noteq> - 1 \<and>
   version (commitUpdate pendingCrash) = 2 \<and>
   map version_number (updates (commitUpdate pendingCrash)) = [1, 2] \<and>
   update (commitUpdate pendingCrash) = Clear \<and>
   history_sorted (commitUpdate pendingCrash) \<and>
   server (update initialList) = [] \<and> commitUpdate initialList = initialList"
proof -
  have ne: "server (update pendingCrash) \<noteq> []"
    using pendingCrash_unfold by auto
  have hs: "history_sorted pendingCrash"
    using pendingCrash_unfold
    by (cases "updates pendingCrash") (auto simp: history_sorted_def)
  have nm: "version pendingCrash \<noteq> - 1"
    using pendingCrash_unfold by simp
  have e: "server (update initialList) = []"
    by (simp add: initialList_def Clear_def)
  show ?thesis
    using commitUpdate_batches [of pendingCrash] commitUpdate_batches [of initialList]
      ne hs nm e pendingCrash_unfold
    by simp
qed

subsection \<open>crashed and remove\<close>

lemma getReference_Inr:
  "getReferenceFromServerId st sid = Inr e \<longleftrightarrow>
     unat (indexNumber sid) < length (serverList st) \<and>
     entry (serverList st ! unat (indexNumber sid)) = Some e \<and> serverId e = sid"
  by (auto simp: getReferenceFromServerId_def Let_def split: option.splits)

lemma crashed_locked_UP:
  assumes "getReferenceFromServerId st sid = Inr e" and "status e = UP"
  shows "crashed_locked st sid =
     Inr (st\<lparr> serverList := list_update (serverList st) (unat (indexNumber sid))
                   ((serverList st ! unat (indexNumber sid))\<lparr> entry := Some (e\<lparr> status := CRASHED \<rparr>) \<rparr>),
               numberOfMasters := (if isMaster e then numberOfMasters st - 1 else numberOfMasters st),
               numberOfBackups := (if isBackup e then numberOfBackups st - 1 else numberOfBackups st),
               update := (update st)\<lparr> server := server (update st) @ [serialize_entry (e\<lparr> status := CRASHED \<rparr>)] \<rparr>,
               trackerChanges := trackerChanges st @ [(e\<lparr> status := CRASHED \<rparr>, SERVER_CRASHED)] \<rparr>)"
  using assms by (simp add: getReference_Inr crashed_locked_def Let_def)

lemma crashed_locked_CRASHED:
  assumes "getReferenceFromServerId st sid = Inr e" and "status e = CRASHED"
  shows "crashed_locked st sid = Inr st"
  using assms by (simp add: getReference_Inr crashed_locked_def Let_def)

lemma commitUpdate_frame:
  "serverList (commitUpdate st) = serverList st \<and>
   trackerChanges (commitUpdate st) = trackerChanges st \<and>
   numberOfMasters (commitUpdate st) = numberOfMasters st \<and>
   numberOfBackups (commitUpdate st) = numberOfBackups st"
  by (simp add: commitUpdate_def Let_def)

lemma commitUpdate_idem: "commitUpdate (commitUpdate st) = commitUpdate st"
  by (simp add: commitUpdate_def Let_def Clear_def)

text \<open>
  Claim C10. For an entry with status UP, the internal \<open>crashed\<close> (lines 538-568 of the
  source) leaves the length of the table, the slot's next generation number, every other
  slot, the committed version, the history and the scan state as they are; the entry of
  the slot is the old entry with the status CRASHED, so its id, service locator,
  services, expected read speed, min open segment id, replication id, acknowledged
  version, update-in-flight flag and log ids are the old ones. The counts drop by one
  for the services the entry has, and one record is appended to the pending batch.
  Beside the list, the trackers are notified of SERVER_CRASHED. The public \<open>crashed\<close>,
  which then commits the pending batch, ends with the same table and the same counts.
\<close>

theorem crashed_locked_frame:
  assumes present: "getReferenceFromServerId st sid = Inr e" and up: "status e = UP"
  shows "\<exists>st'. crashed_locked st sid = Inr st' \<and>
           length (serverList st') = length (serverList st) \<and>
           entry (serverList st' ! unat (indexNumber sid)) = Some (e\<lparr> status := CRASHED \<rparr>) \<and>
           nextGenerationNumber (serverList st' ! unat (indexNumber sid))
             = nextGenerationNumber (serverList st ! unat (indexNumber sid)) \<and>
           (\<forall>i < length (serverList st). i \<noteq> unat (indexNumber sid) \<longrightarrow>
                serverList st' ! i = serverList st ! i) \<and>
           version st' = version st \<and> updates st' = updates st \<and> lastScan st' = lastScan st \<and>
           numberOfMasters st' = (if isMaster e then numberOfMasters st - 1 else numberOfMasters st) \<and>
           numberOfBackups st' = (if isBackup e then numberOfBackups st - 1 else numberOfBackups st) \<and>
           update st' = (update st)\<lparr> server := server (update st)
                                        @ [serialize_entry (e\<lparr> status := CRASHED \<rparr>)] \<rparr> \<and>
           (\<exists>st''. crashed st sid = Inr st'' \<and> serverList st'' = serverList st' \<and>
                   numberOfMasters st'' = numberOfMasters st' \<and>
                   numberOfBackups st'' = numberOfBackups st')"
proof -
  have i: "unat (indexNumber sid) < length (serverList st)"
    using present by (simp add: getReference_Inr)
  show ?thesis
    unfolding crashed_def crashed_locked_UP [OF present up] using i
    by (simp add: commitUpdate_frame)
qed

text \<open>
  Claim C7, as amended. For an entry with status UP or CRASHED, \<open>crashed(id); crashed(id)\<close>
  ends with the same list as a single \<open>crashed(id)\<close> (entries, counts, committed version,
  history, pending batch and events delivered alike). The trackers receive exactly one
  SERVER_CRASHED when the entry was UP, and no event when it was already CRASHED.
\<close>

theorem crashed_twice_idempotent:
  assumes present: "getReferenceFromServerId st sid = Inr e" and live: "status e \<noteq> DOWN"
  shows "\<exists>st1. crashed st sid = Inr st1 \<and> crashed_twice st sid = Inr st1 \<and>
           delivered st st1 = (if status e = UP then [SERVER_CRASHED] else [])"
proof (cases "status e = UP")
  case True
  let ?i = "unat (indexNumber sid)"
  obtain st0 where l: "crashed_locked st sid = Inr st0"
    and e0: "entry (serverList st0 ! ?i) = Some (e\<lparr> status := CRASHED \<rparr>)"
    and len: "length (serverList st0) = length (serverList st)"
    and tc: "trackerChanges st0 = trackerChanges st @ [(e\<lparr> status := CRASHED \<rparr>, SERVER_CRASHED)]"
    using crashed_locked_UP [OF present True] present
    by (simp add: getReference_Inr)
  have c1: "crashed st sid = Inr (commitUpdate st0)"
    by (simp add: crashed_def l)
  have "getReferenceFromServerId (commitUpdate st0) sid = Inr (e\<lparr> status := CRASHED \<rparr>)"
    using present e0 len by (simp add: getReference_Inr commitUpdate_frame)
  then have "crashed_locked (commitUpdate st0) sid = Inr (commitUpdate st0)"
    by (rule crashed_locked_CRASHED) simp
  then have c2: "crashed (commitUpdate st0) sid = Inr (commitUpdate st0)"
    by (simp add: crashed_def commitUpdate_idem)
  have "delivered st (commitUpdate st0) = [SERVER_CRASHED]"
    by (simp add: delivered_def commitUpdate_frame tc)
  with c1 c2 True show ?thesis
    by (simp add: crashed_twice_def)
next
  case False
  with live have cr: "status e = CRASHED" by (cases "status e") auto
  have l: "crashed_locked st sid = Inr st"
    using present cr by (rule crashed_locked_CRASHED)
  have c1: "crashed st sid = Inr (commitUpdate st)"
    by (simp add: crashed_def l)
  have "getReferenceFromServerId (commitUpdate st) sid = Inr e"
    using present by (simp add: getReference_Inr commitUpdate_frame)
  then have "crashed_locked (commitUpdate st) sid = Inr (commitUpdate st)"
    using cr by (rule crashed_locked_CRASHED)
  then have c2: "crashed (commitUpdate st) sid = Inr (commitUpdate st)"
    by (simp add: crashed_def commitUpdate_idem)
  have "delivered st (commitUpdate st) = []"
    by (simp add: delivered_def commitUpdate_frame)
  with c1 c2 False show ?thesis
    by (simp add: crashed_twice_def)
qed

text \<open>
  Claim C3, as amended. For an entry with status UP or CRASHED, \<open>remove\<close> succeeds and
  destroys the entry. When the entry was UP the trackers receive SERVER_CRASHED, from
  the inner call of \<open>crashed\<close>, and then SERVER_REMOVED; when it was CRASHED they
  receive SERVER_REMOVED alone. The records appended to the pending batch are CRASHED,
  DOWN for an UP entry and DOWN for a CRASHED one, and the public \<open>remove\<close> commits them
  as one batch.
\<close>

theorem remove_events_and_records:
  assumes present: "getReferenceFromServerId st sid = Inr e" and live: "status e \<noteq> DOWN"
  shows "\<exists>st1 st'. remove_locked st sid = Inr st1 \<and> remove st sid = Inr st' \<and>
           delivered st st' =
             (if status e = UP then [SERVER_CRASHED, SERVER_REMOVED] else [SERVER_REMOVED]) \<and>
           server (update st1) = server (update st) @ removal_records e \<and>
           map pb_status (removal_records e) =
             (if status e = UP then [CRASHED, DOWN] else [DOWN]) \<and>
           updates st' = updates st @ [(update st1)\<lparr> version_number := version st + 1,
                                                       list_type := Some UPDATE \<rparr>] \<and>
           entry (serverList st' ! unat (indexNumber sid)) = None"
proof -
  let ?i = "unat (indexNumber sid)"
  have i: "?i < length (serverList st)" and es: "entry (serverList st ! ?i) = Some e"
    and ide: "serverId e = sid"
    using present by (simp_all add: getReference_Inr)
  show ?thesis
  proof (cases "status e = UP")
    case True
    have rl: "\<exists>st1. remove_locked st sid = Inr st1 \<and>
        trackerChanges st1 = trackerChanges st @ [(e\<lparr> status := CRASHED \<rparr>, SERVER_CRASHED),
                                                  (e\<lparr> status := DOWN \<rparr>, SERVER_REMOVED)] \<and>
        server (update st1) = server (update st) @ removal_records e \<and>
        version st1 = version st \<and> updates st1 = updates st \<and>
        entry (serverList st1 ! ?i) = None"
      using i es ide True
      by (simp add: remove_locked_def crashed_locked_UP [OF present True] Let_def removal_records_def)
    then obtain st1 where r: "remove_locked st sid = Inr st1"
      and tc: "trackerChanges st1 = trackerChanges st @ [(e\<lparr> status := CRASHED \<rparr>, SERVER_CRASHED),
                                                  (e\<lparr> status := DOWN \<rparr>, SERVER_REMOVED)]"
      and recs: "server (update st1) = server (update st) @ removal_records e"
      and v: "version st1 = version st" and u: "updates st1 = updates st"
      and gone: "entry (serverList st1 ! ?i) = None"
      by blast
    have ne: "server (update st1) \<noteq> []"
      using recs by (simp add: removal_records_def)
    have "remove st sid = Inr (commitUpdate st1)"
      by (simp add: remove_def r)
    moreover have "delivered st (commitUpdate st1) = [SERVER_CRASHED, SERVER_REMOVED]"
      by (simp add: delivered_def commitUpdate_frame tc)
    moreover have "updates (commitUpdate st1) =
        updates st @ [(update st1)\<lparr> version_number := version st + 1, list_type := Some UPDATE \<rparr>]"
      using ne by (simp add: commitUpdate_def Let_def v u)
    moreover have "entry (serverList (commitUpdate st1) ! ?i) = None"
      using gone by (simp add: commitUpdate_frame)
    ultimately show ?thesis
      using r recs True by (simp add: removal_records_def serialize_entry_def)
  next
    case False
    with live have cr: "status e = CRASHED" by (cases "status e") auto
    have rl: "\<exists>st1. remove_locked st sid = Inr st1 \<and>
        trackerChanges st1 = trackerChanges st @ [(e\<lparr> status := DOWN \<rparr>, SERVER_REMOVED)] \<and>
        server (update st1) = server (update st) @ removal_records e \<and>
        version st1 = version st \<and> updates st1 = updates st \<and>
        entry (serverList st1 ! ?i) = None"
      using i es ide cr
      by (simp add: remove_locked_def crashed_locked_CRASHED [OF present cr] Let_def removal_records_def)
    then obtain st1 where r: "remove_locked st sid = Inr st1"
      and tc: "trackerChanges st1 = trackerChanges st @ [(e\<lparr> status := DOWN \<rparr>, SERVER_REMOVED)]"
      and recs: "server (update st1) = server (update st) @ removal_records e"
      and v: "version st1 = version st" and u: "updates st1 = updates st"
      and gone: "entry (serverList st1 ! ?i) = None"
      by blast
    have ne: "server (update st1) \<noteq> []"
      using recs by (simp add: removal_records_def)
    have "remove st sid = Inr (commitUpdate st1)"
      by (simp add: remove_def r)
    moreover have "delivered st (commitUpdate st1) = [SERVER_REMOVED]"
      by (simp add: delivered_def commitUpdate_frame tc)
    moreover have "updates (commitUpdate st1) =
        updates st @ [(update st1)\<lparr> version_number := version st + 1, list_type := Some UPDATE \<rparr>]"
      using ne by (simp add: commitUpdate_def Let_def v u)
    moreover have "entry (serverList (commitUpdate st1) ! ?i) = None"
      using gone by (simp add: commitUpdate_frame)
    ultimately show ?thesis
      using r recs cr by (simp add: removal_records_def serialize_entry_def)
  qed
qed

lemma oneMasterUp_eq:
  "oneMasterUp =
     \<lparr> serverList = [emptyPair, \<lparr> nextGenerationNumber = 1, entry = Some upEntry \<rparr>],
       numberOfMasters = 1, numberOfBackups = 0, version = 1,
       lastScan = \<lparr> noUpdatesFound = False, searchIndex = 0, minVersion = 0 \<rparr>,
       update = Clear,
       updates = [\<lparr> server = [serialize_entry upEntry], version_number = 1,
                    list_type = Some UPDATE \<rparr>],
       trackerChanges = [(upEntry, SERVER_ADDED)] \<rparr>"
  by (simp add: oneMasterUp_def upEntry_def id_1_0_def add_def add_locked_def commitUpdate_def
      initialList_def resize_def emptyPair_def has_def Clear_def Let_def)
     (simp add: numeral_2_eq_2)

lemma oneMasterUp_entry: "getReferenceFromServerId oneMasterUp id_1_0 = Inr upEntry"
  by (simp add: oneMasterUp_eq getReference_Inr) (simp add: id_1_0_def upEntry_def newEntry_def)

lemma upEntry_status: "status upEntry = UP"
  by (simp add: upEntry_def newEntry_def)

lemma oneMasterCrashed_eq:
  "oneMasterCrashed =
     \<lparr> serverList = [emptyPair, \<lparr> nextGenerationNumber = 1,
                                  entry = Some (upEntry\<lparr> status := CRASHED \<rparr>) \<rparr>],
       numberOfMasters = 0, numberOfBackups = 0, version = 2,
       lastScan = \<lparr> noUpdatesFound = False, searchIndex = 0, minVersion = 0 \<rparr>,
       update = Clear,
       updates = [\<lparr> server = [serialize_entry upEntry], version_number = 1,
                    list_type = Some UPDATE \<rparr>,
                  \<lparr> server = [serialize_entry (upEntry\<lparr> status := CRASHED \<rparr>)], version_number = 2,
                    list_type = Some UPDATE \<rparr>],
       trackerChanges = [(upEntry, SERVER_ADDED), (upEntry\<lparr> status := CRASHED \<rparr>, SERVER_CRASHED)] \<rparr>"
  unfolding oneMasterCrashed_def crashed_def crashed_locked_UP [OF oneMasterUp_entry upEntry_status]
  by (simp add: oneMasterUp_eq commitUpdate_def Let_def id_1_0_def Clear_def)
     (simp add: upEntry_def newEntry_def isMaster_def isBackup_def has_def)

lemma oneMasterCrashed_entry:
  "getReferenceFromServerId oneMasterCrashed id_1_0 = Inr (upEntry\<lparr> status := CRASHED \<rparr>)"
  by (simp add: oneMasterCrashed_eq getReference_Inr) (simp add: id_1_0_def upEntry_def newEntry_def)

text \<open>
  The theorem at the list with one master, UP, under the identifier (1,0).
\<close>

theorem crashed_locked_frame_witness:
  "getReferenceFromServerId oneMasterUp id_1_0 = Inr upEntry \<and> status upEntry = UP \<and>
   map_sum id serverList (crashed_locked oneMasterUp id_1_0)
     = Inr [emptyPair, \<lparr> nextGenerationNumber = 1, entry = Some (upEntry\<lparr> status := CRASHED \<rparr>) \<rparr>] \<and>
   map_sum id numberOfMasters (crashed_locked oneMasterUp id_1_0) = Inr 0"
proof -
  obtain st' where c: "crashed_locked oneMasterUp id_1_0 = Inr st'"
    and len: "length (serverList st') = length (serverList oneMasterUp)"
    and e: "entry (serverList st' ! unat (indexNumber id_1_0)) = Some (upEntry\<lparr> status := CRASHED \<rparr>)"
    and g: "nextGenerationNumber (serverList st' ! unat (indexNumber id_1_0))
             = nextGenerationNumber (serverList oneMasterUp ! unat (indexNumber id_1_0))"
    and others: "\<forall>i < length (serverList oneMasterUp). i \<noteq> unat (indexNumber id_1_0) \<longrightarrow>
                serverList st' ! i = serverList oneMasterUp ! i"
    and m: "numberOfMasters st' = (if isMaster upEntry then numberOfMasters oneMasterUp - 1
                                    else numberOfMasters oneMasterUp)"
    using crashed_locked_frame [OF oneMasterUp_entry upEntry_status] by blast
  have l2: "length (serverList st') = 2"
    using len by (simp add: oneMasterUp_eq)
  have s0: "serverList st' ! 0 = emptyPair"
    using others by (simp add: oneMasterUp_eq id_1_0_def)
  have s1: "serverList st' ! 1 = \<lparr> nextGenerationNumber = 1, entry = Some (upEntry\<lparr> status := CRASHED \<rparr>) \<rparr>"
    using e g by (cases "serverList st' ! 1") (simp add: oneMasterUp_eq id_1_0_def)
  have "serverList st' = [serverList st' ! 0, serverList st' ! 1]"
    using l2 by (cases "serverList st'"; cases "tl (serverList st')") auto
  then have sl: "serverList st' = [emptyPair, \<lparr> nextGenerationNumber = 1, entry = Some (upEntry\<lparr> status := CRASHED \<rparr>) \<rparr>]"
    using s0 s1 by simp
  have "numberOfMasters st' = 0"
    using m by (simp add: oneMasterUp_eq upEntry_def newEntry_def isMaster_def has_def)
  with c sl show ?thesis
    by (simp add: oneMasterUp_entry upEntry_status)
qed

text \<open>
  The theorem at the list with one master, UP, under the identifier (1,0).
\<close>

theorem crashed_twice_idempotent_witness:
  "getReferenceFromServerId oneMasterUp id_1_0 = Inr upEntry \<and> status upEntry \<noteq> DOWN \<and>
   crashed_twice oneMasterUp id_1_0 = crashed oneMasterUp id_1_0 \<and>
   map_sum id (delivered oneMasterUp) (crashed oneMasterUp id_1_0) = Inr [SERVER_CRASHED]"
proof -
  have live: "status upEntry \<noteq> DOWN"
    by (simp add: upEntry_status)
  from crashed_twice_idempotent [OF oneMasterUp_entry live]
  show ?thesis
    using live by (auto simp: oneMasterUp_entry upEntry_status)
qed

text \<open>
  Claim C7 as stated asserts that exactly one SERVER_CRASHED is delivered, also for an
  entry whose status is CRASHED. On the list whose only server is already CRASHED, the two calls
  deliver no event.
\<close>

theorem crashed_twice_events_counterexample:
  "map_sum id status (at_serverId oneMasterCrashed id_1_0) = Inr CRASHED \<and>
   map_sum id (delivered oneMasterCrashed) (crashed_twice oneMasterCrashed id_1_0) = Inr []"
proof -
  have cl: "crashed_locked oneMasterCrashed id_1_0 = Inr oneMasterCrashed"
    by (rule crashed_locked_CRASHED [OF oneMasterCrashed_entry]) simp
  have cu: "commitUpdate oneMasterCrashed = oneMasterCrashed"
    by (simp add: commitUpdate_def oneMasterCrashed_eq Clear_def)
  show ?thesis
    by (simp add: at_serverId_def oneMasterCrashed_entry crashed_twice_def crashed_def cl cu
        delivered_def)
qed

text \<open>
  The theorem at the list whose only server is CRASHED.
\<close>

theorem remove_events_and_records_witness:
  "getReferenceFromServerId oneMasterCrashed id_1_0 = Inr (upEntry\<lparr> status := CRASHED \<rparr>) \<and>
   status (upEntry\<lparr> status := CRASHED \<rparr>) \<noteq> DOWN \<and>
   map_sum id (delivered oneMasterCrashed) (remove oneMasterCrashed id_1_0) = Inr [SERVER_REMOVED] \<and>
   map_sum id (map pb_status \<circ> server \<circ> update) (remove_locked oneMasterCrashed id_1_0) = Inr [DOWN]"
proof -
  have live: "status (upEntry\<lparr> status := CRASHED \<rparr>) \<noteq> DOWN"
    by simp
  have pend: "server (update oneMasterCrashed) = []"
    by (simp add: oneMasterCrashed_eq Clear_def)
  from remove_events_and_records [OF oneMasterCrashed_entry live]
  show ?thesis
    using live pend by (auto simp: oneMasterCrashed_entry)
qed

text \<open>
  Claim C3 as stated asserts that \<open>remove\<close> delivers SERVER_REMOVED alone, also for an
  UP entry.
  On the list with one master, UP, the trackers receive SERVER_CRASHED and then
  SERVER_REMOVED.
\<close>

theorem remove_events_counterexample:
  "map_sum id status (at_serverId oneMasterUp id_1_0) = Inr UP \<and>
   map_sum id (delivered oneMasterUp) (remove oneMasterUp id_1_0)
     = Inr [SERVER_CRASHED, SERVER_REMOVED]"
  unfolding at_serverId_def oneMasterUp_entry remove_def remove_locked_def
    crashed_locked_UP [OF oneMasterUp_entry upEntry_status]
  by (simp add: upEntry_status oneMasterUp_eq id_1_0_def Let_def delivered_def commitUpdate_frame)
     (simp add: upEntry_def newEntry_def id_1_0_def)

subsection \<open>Unknown identifiers and indexes out of range\<close>

lemma slots_indexed_iff:
  "slots_indexed st \<longleftrightarrow>
     (\<forall>i < length (serverList st). \<forall>e. entry (serverList st ! i) = Some e
         \<longrightarrow> unat (indexNumber (serverId e)) = i)"
  by (auto simp: slots_indexed_def list_all_length split: option.splits)

lemma holds_id_iff:
  "holds_id st sid \<longleftrightarrow>
     (\<exists>i < length (serverList st). \<exists>e. entry (serverList st ! i) = Some e \<and> serverId e = sid)"
  by (auto simp: holds_id_def list_ex_length split: option.splits)

lemma getReference_Inl:
  "getReferenceFromServerId st sid = Inl err \<Longrightarrow> err = ServerListException"
  by (auto simp: getReferenceFromServerId_def Let_def split: option.splits if_splits)

lemma getReference_cases:
  obtains (absent) "getReferenceFromServerId st sid = Inl ServerListException"
  | (present) e where "getReferenceFromServerId st sid = Inr e"
  by (cases "getReferenceFromServerId st sid") (auto dest: getReference_Inl)

lemma getReference_unknown_iff:
  assumes "slots_indexed st"
  shows "getReferenceFromServerId st sid = Inl ServerListException \<longleftrightarrow> \<not> holds_id st sid"
proof
  assume a: "getReferenceFromServerId st sid = Inl ServerListException"
  show "\<not> holds_id st sid"
  proof
    assume "holds_id st sid"
    then obtain i e where i: "i < length (serverList st)"
      and e: "entry (serverList st ! i) = Some e" and s: "serverId e = sid"
      by (auto simp: holds_id_iff)
    from assms i e have "unat (indexNumber (serverId e)) = i"
      by (simp add: slots_indexed_iff)
    with i e s have "getReferenceFromServerId st sid = Inr e"
      by (simp add: getReference_Inr)
    with a show False by simp
  qed
next
  assume n: "\<not> holds_id st sid"
  show "getReferenceFromServerId st sid = Inl ServerListException"
  proof (cases rule: getReference_cases [of st sid])
    case absent
    then show ?thesis .
  next
    case (present e)
    then have "holds_id st sid"
      by (auto simp: getReference_Inr holds_id_iff)
    with n show ?thesis by simp
  qed
qed

lemma crashed_locked_unknown_iff:
  "crashed_locked st sid = Inl ServerListException \<longleftrightarrow>
   getReferenceFromServerId st sid = Inl ServerListException"
  by (auto simp: crashed_locked_def getReferenceFromServerId_def Let_def
      split: option.splits if_splits)

lemma remove_locked_unknown_iff:
  "remove_locked st sid = Inl ServerListException \<longleftrightarrow>
   getReferenceFromServerId st sid = Inl ServerListException"
proof (cases rule: getReference_cases [of st sid])
  case absent
  then show ?thesis
    by (auto simp: remove_locked_def getReferenceFromServerId_def Let_def
        split: option.splits if_splits)
next
  case (present e)
  then have c: "crashed_locked st sid \<noteq> Inl ServerListException"
    by (simp add: crashed_locked_unknown_iff)
  from present have "remove_locked st sid \<noteq> Inl ServerListException"
    using c by (auto simp: remove_locked_def getReference_Inr Let_def
        split: option.splits sum.splits)
  with present show ?thesis by simp
qed

subsection \<open>sync\<close>

lemma isClusterUpToDate_loop_iff:
  "isClusterUpToDate_loop v ps \<longleftrightarrow> list_all (up_to_date_entry v) ps"
  by (induction ps) (auto simp: up_to_date_entry_def split: option.splits)

lemma sync_Some:
  "sync observed = Some st \<Longrightarrow> st \<in> set observed \<and> isClusterUpToDate st"
  by (induction observed) (auto split: if_splits)

text \<open>
  Claim C6. When \<open>sync\<close> returns, it does so with one of the lists it saw, and in that
  list every entry with status UP whose services include MEMBERSHIP has its acknowledged
  version equal to the committed version and no update in flight.
\<close>

theorem sync_returns_up_to_date:
  assumes "sync observed = Some st"
  shows "st \<in> set observed \<and>
         (\<forall>i < length (serverList st). \<forall>e. entry (serverList st ! i) = Some e \<longrightarrow>
            status e = UP \<longrightarrow> has (services e) MEMBERSHIP_SERVICE \<longrightarrow>
            serverListVersion e = version st \<and> \<not> isBeingUpdated e)"
proof -
  from assms have m: "st \<in> set observed" and u: "isClusterUpToDate st"
    by (auto dest: sync_Some)
  from u have "list_all (up_to_date_entry (version st)) (serverList st)"
    by (simp add: isClusterUpToDate_def isClusterUpToDate_loop_iff)
  then have "\<forall>i < length (serverList st). up_to_date_entry (version st) (serverList st ! i)"
    by (simp add: list_all_length)
  with m show ?thesis
    by (auto simp: up_to_date_entry_def)
qed

lemma slots_indexed_oneMasterUp: "slots_indexed oneMasterUp"
  by (simp add: slots_indexed_iff oneMasterUp_eq less_Suc_eq numeral_2_eq_2 emptyPair_def)
     (simp add: upEntry_def newEntry_def id_1_0_def)

text \<open>
  The theorem for a \<open>sync\<close> that first sees the list with one master that has
  acknowledged nothing, waits, and then sees the list in which the master has
  acknowledged version 1.
\<close>

theorem sync_returns_up_to_date_witness:
  "sync [oneMasterUp, oneMasterAcked] = Some oneMasterAcked \<and>
   oneMasterAcked \<in> set [oneMasterUp, oneMasterAcked] \<and>
   map_sum id serverListVersion (at_serverId oneMasterAcked id_1_0) = Inr (version oneMasterAcked)"
proof -
  have e: "oneMasterAcked = oneMasterUp\<lparr> serverList :=
      [emptyPair, \<lparr> nextGenerationNumber = 1, entry = Some (upEntry\<lparr> serverListVersion := 1 \<rparr>) \<rparr>] \<rparr>"
    by (simp add: oneMasterAcked_def updateEntryVersion_def oneMasterUp_entry writeEntry_def Let_def)
       (simp add: oneMasterUp_eq id_1_0_def upEntry_def newEntry_def)
  have n: "\<not> isClusterUpToDate oneMasterUp"
    by (simp add: isClusterUpToDate_def oneMasterUp_eq emptyPair_def)
       (simp add: upEntry_def newEntry_def has_def)
  have y: "isClusterUpToDate oneMasterAcked"
    by (simp add: isClusterUpToDate_def e emptyPair_def)
       (simp add: oneMasterUp_eq upEntry_def newEntry_def)
  have s: "sync [oneMasterUp, oneMasterAcked] = Some oneMasterAcked"
    using n y by simp
  have g: "at_serverId oneMasterAcked id_1_0 = Inr (upEntry\<lparr> serverListVersion := 1 \<rparr>)"
    by (simp add: at_serverId_def getReference_Inr e) (simp add: id_1_0_def upEntry_def newEntry_def)
  have v: "version oneMasterAcked = 1"
    by (simp add: e oneMasterUp_eq)
  from sync_returns_up_to_date [OF s] s show ?thesis
    by (simp add: g v)
qed

subsection \<open>generateUniqueId\<close>

lemma firstFreeIndex_loop_bounds:
  "index \<le> firstFreeIndex_loop sl index \<and> firstFreeIndex_loop sl index \<le> max index (length sl)"
proof (induction sl index rule: firstFreeIndex_loop.induct)
  case (1 sl index)
  show ?case
  proof (cases "index < length sl \<and> entry (sl ! index) \<noteq> None")
    case True
    then have "firstFreeIndex_loop sl index = firstFreeIndex_loop sl (index + 1)"
      by (simp add: firstFreeIndex_loop_step)
    with 1 True show ?thesis by auto
  next
    case False
    then show ?thesis by (simp add: firstFreeIndex_loop_stop)
  qed
qed

lemma firstFreeIndex_loop_free:
  "firstFreeIndex_loop sl index < length sl \<Longrightarrow>
   entry (sl ! firstFreeIndex_loop sl index) = None"
proof (induction sl index rule: firstFreeIndex_loop.induct)
  case (1 sl index)
  show ?case
  proof (cases "index < length sl \<and> entry (sl ! index) \<noteq> None")
    case True
    then have "firstFreeIndex_loop sl index = firstFreeIndex_loop sl (index + 1)"
      by (simp add: firstFreeIndex_loop_step)
    with 1 True show ?thesis by auto
  next
    case False
    then have "firstFreeIndex_loop sl index = index"
      by (simp add: firstFreeIndex_loop_stop)
    with False 1 show ?thesis by auto
  qed
qed

lemma unat_word_of_nat_32:
  "r < 2 ^ 32 \<Longrightarrow> unat (word_of_nat r :: 32 word) = r"
  by (simp add: unat_of_nat)

lemma generateUniqueId_Inr:
  assumes g: "generateUniqueId st = Inr (sid, st')"
  obtains r sl where
    "r = firstFreeIndex_loop (serverList st) 1" and "0 < r" and "r < 2 ^ 32" and
    "sl = (if length (serverList st) \<le> r
           then serverList st @ replicate (r + 1 - length (serverList st)) emptyPair
           else serverList st)" and
    "r < length sl" and "entry (sl ! r) = None" and
    "unat (indexNumber sid) = r" and
    "generationNumber sid = nextGenerationNumber (sl ! r)" and
    "st' = st\<lparr> serverList := list_update sl r
             \<lparr> nextGenerationNumber = nextGenerationNumber (sl ! r) + 1,
               entry = Some (newEntry sid [] {}) \<rparr> \<rparr>"
proof -
  define r where "r = firstFreeIndex_loop (serverList st) 1"
  define sl where "sl = (if length (serverList st) \<le> r
           then serverList st @ replicate (r + 1 - length (serverList st)) emptyPair
           else serverList st)"
  have pos: "0 < r"
    using firstFreeIndex_loop_bounds [of 1 "serverList st"] by (simp add: r_def)
  have small: "r < 2 ^ 32"
    using g pos by (auto simp: generateUniqueId_def firstFreeIndex_def Let_def r_def
        split: if_splits)
  have ff: "firstFreeIndex st = Inr (word_of_nat r, st\<lparr> serverList := sl \<rparr>)"
    using pos small by (simp add: firstFreeIndex_def Let_def r_def sl_def resize_def)
  have len: "r < length sl"
    by (simp add: sl_def)
  have free: "entry (sl ! r) = None"
  proof (cases "length (serverList st) \<le> r")
    case True
    then show ?thesis by (simp add: sl_def nth_append emptyPair_def)
  next
    case False
    then show ?thesis
      using firstFreeIndex_loop_free [of "serverList st" 1] by (simp add: sl_def r_def)
  qed
  have u: "unat (word_of_nat r :: 32 word) = r"
    using small by (rule unat_word_of_nat_32)
  have sid: "sid = \<lparr> indexNumber = word_of_nat r, generationNumber = nextGenerationNumber (sl ! r) \<rparr>"
    using g by (simp add: generateUniqueId_def ff u Let_def)
  have st': "st' = st\<lparr> serverList := list_update sl r
             \<lparr> nextGenerationNumber = nextGenerationNumber (sl ! r) + 1,
               entry = Some (newEntry sid [] {}) \<rparr> \<rparr>"
    using g by (cases "sl ! r") (auto simp: generateUniqueId_def ff u Let_def)
  show thesis
    using that [of r sl] r_def pos small sl_def len free u sid st' by simp
qed

lemma generateUniqueId_returns:
  assumes "length (serverList st) < 2 ^ 32"
  shows "\<exists>sid st'. generateUniqueId st = Inr (sid, st')"
proof -
  have "firstFreeIndex_loop (serverList st) 1 \<le> max 1 (length (serverList st))"
    and "1 \<le> firstFreeIndex_loop (serverList st) 1"
    using firstFreeIndex_loop_bounds [of 1 "serverList st"] by simp_all
  with assms have "firstFreeIndex_loop (serverList st) 1 < 2 ^ 32"
    and "firstFreeIndex_loop (serverList st) 1 \<noteq> 0"
    by auto
  then show ?thesis
    by (simp add: generateUniqueId_def firstFreeIndex_def Let_def)
qed

lemma serialize_loop_append:
  "serialize_loop (xs @ ys) wanted = serialize_loop xs wanted @ serialize_loop ys wanted"
  by (induction xs) (auto split: option.splits)

lemma serialize_loop_replicate_empty:
  "serialize_loop (replicate n emptyPair) wanted = []"
  by (induction n) (auto simp: emptyPair_def)

lemma serialize_loop_placeholder:
  assumes "i < length xs" and "entry (xs ! i) = None" and "services e = {}"
  shows "serialize_loop (list_update xs i \<lparr> nextGenerationNumber = g, entry = Some e \<rparr>) wanted
           = serialize_loop xs wanted"
  using assms
proof (induction xs arbitrary: i)
  case Nil
  then show ?case by simp
next
  case (Cons x xs)
  show ?case
  proof (cases i)
    case 0
    with Cons.prems show ?thesis by (simp add: has_def)
  next
    case (Suc j)
    with Cons show ?thesis by (simp split: option.splits)
  qed
qed

text \<open>
  Claim C9. \<open>generateUniqueId\<close> returns whenever the table has fewer than \<open>2^32\<close> slots.
  When it returns the identifier \<open>sid\<close>, the read by id and the read by index both
  succeed and return the placeholder, whose status is UP, whose service locator is the
  empty string and whose service set is empty; the master count, the backup count and
  the serialization of the full list under the MASTER/BACKUP filter are those of the
  list before the call.
\<close>

theorem generateUniqueId_placeholder:
  "(length (serverList st) < 2 ^ 32 \<longrightarrow> (\<exists>sid st'. generateUniqueId st = Inr (sid, st'))) \<and>
   (\<forall>sid st'. generateUniqueId st = Inr (sid, st') \<longrightarrow>
      (\<exists>e. at_serverId st' sid = Inr e \<and>
            at_index st' (unat (indexNumber sid)) = Inr (Some e) \<and>
            status e = UP \<and> serviceLocator e = [] \<and> services e = {}) \<and>
      masterCount st' = masterCount st \<and>
      backupCount st' = backupCount st \<and>
      serialize_all st' protoBuf = serialize_all st protoBuf)"
proof (intro conjI allI impI)
  assume "length (serverList st) < 2 ^ 32"
  then show "\<exists>sid st'. generateUniqueId st = Inr (sid, st')"
    by (rule generateUniqueId_returns)
next
  fix sid st'
  assume g: "generateUniqueId st = Inr (sid, st')"
  from g obtain r sl where
    sl: "sl = (if length (serverList st) \<le> r
           then serverList st @ replicate (r + 1 - length (serverList st)) emptyPair
           else serverList st)" and
    len: "r < length sl" and free: "entry (sl ! r) = None" and
    u: "unat (indexNumber sid) = r" and
    st': "st' = st\<lparr> serverList := list_update sl r
             \<lparr> nextGenerationNumber = nextGenerationNumber (sl ! r) + 1,
               entry = Some (newEntry sid [] {}) \<rparr> \<rparr>"
    by (rule generateUniqueId_Inr)
  have "at_serverId st' sid = Inr (newEntry sid [] {})"
    using len u by (simp add: at_serverId_def getReference_Inr st') (simp add: newEntry_def)
  moreover have "at_index st' (unat (indexNumber sid)) = Inr (Some (newEntry sid [] {}))"
    using len u by (simp add: at_index_def st')
  ultimately show "\<exists>e. at_serverId st' sid = Inr e \<and>
            at_index st' (unat (indexNumber sid)) = Inr (Some e) \<and>
            status e = UP \<and> serviceLocator e = [] \<and> services e = {}"
    by (simp add: newEntry_def)
  show "masterCount st' = masterCount st"
    by (simp add: masterCount_def st')
  show "backupCount st' = backupCount st"
    by (simp add: backupCount_def st')
  have "serialize_loop sl {MASTER_SERVICE, BACKUP_SERVICE}
          = serialize_loop (serverList st) {MASTER_SERVICE, BACKUP_SERVICE}"
    by (simp add: sl serialize_loop_append serialize_loop_replicate_empty)
  moreover have "serialize_loop (serverList st') {MASTER_SERVICE, BACKUP_SERVICE}
          = serialize_loop sl {MASTER_SERVICE, BACKUP_SERVICE}"
    unfolding st' using len free
    by (simp add: serialize_loop_placeholder newEntry_def)
  ultimately show "serialize_all st' protoBuf = serialize_all st protoBuf"
    by (simp add: serialize_all_def serialize_def st')
qed

text \<open>
  The theorem at the list whose only server, in slot 1, is CRASHED: the identifier
  generated is (2,0).
\<close>

theorem generateUniqueId_placeholder_witness:
  "length (serverList oneMasterCrashed) < 2 ^ 32 \<and>
   map_sum id fst (generateUniqueId oneMasterCrashed) = Inr \<lparr> indexNumber = 2, generationNumber = 0 \<rparr> \<and>
   map_sum id (masterCount \<circ> snd) (generateUniqueId oneMasterCrashed) = Inr (masterCount oneMasterCrashed) \<and>
   map_sum id (\<lambda>r. serialize_all (snd r) Clear) (generateUniqueId oneMasterCrashed)
     = Inr (serialize_all oneMasterCrashed Clear)"
proof -
  have len: "length (serverList oneMasterCrashed) < 2 ^ 32"
    by (simp add: oneMasterCrashed_eq)
  have l1: "firstFreeIndex_loop (serverList oneMasterCrashed) 1 = 2"
    by (simp add: oneMasterCrashed_eq firstFreeIndex_loop_step firstFreeIndex_loop_stop
        numeral_2_eq_2)
  have g: "map_sum id fst (generateUniqueId oneMasterCrashed)
            = Inr \<lparr> indexNumber = 2, generationNumber = 0 \<rparr>"
    unfolding generateUniqueId_def firstFreeIndex_def l1
    by (simp add: Let_def resize_def oneMasterCrashed_eq emptyPair_def)
  from generateUniqueId_placeholder [of oneMasterCrashed Clear] len g
  show ?thesis
    by (cases "generateUniqueId oneMasterCrashed") auto
qed

subsection \<open>The counts of masters and backups\<close>

lemma added_entry_simps:
  "serverId (added_entry sid locator serviceMask readSpeed) = sid"
  "status (added_entry sid locator serviceMask readSpeed) = UP"
  "services (added_entry sid locator serviceMask readSpeed) = serviceMask"
  by (simp_all add: added_entry_def newEntry_def)

lemma unat_succ_32:
  fixes x :: "32 word"
  shows "x + 1 \<noteq> 0 \<Longrightarrow> unat (x + 1) = Suc (unat x)"
  using unatSuc [of x] by (simp add: add.commute)

lemma add_locked_Inr:
  assumes a: "add_locked st sid locator serviceMask readSpeed = Inr st'"
  obtains sl where
    "sl = (if length (serverList st) \<le> unat (indexNumber sid)
           then serverList st @ replicate (unat (indexNumber sid) + 1 - length (serverList st)) emptyPair
           else serverList st)" and
    "unat (indexNumber sid) < length sl" and
    "st' = st\<lparr> serverList := list_update sl (unat (indexNumber sid))
                   ((sl ! unat (indexNumber sid))
                      \<lparr> nextGenerationNumber := generationNumber sid + 1,
                        entry := Some (added_entry sid locator serviceMask readSpeed) \<rparr>),
               numberOfMasters := (if has serviceMask MASTER_SERVICE
                                   then numberOfMasters st + 1 else numberOfMasters st),
               numberOfBackups := (if has serviceMask BACKUP_SERVICE
                                   then numberOfBackups st + 1 else numberOfBackups st),
               update := (update st)\<lparr> server := server (update st)
                    @ [serialize_entry (added_entry sid locator serviceMask readSpeed)] \<rparr>,
               trackerChanges := trackerChanges st
                    @ [(added_entry sid locator serviceMask readSpeed, SERVER_ADDED)] \<rparr>"
proof -
  let ?i = "unat (indexNumber sid)"
  define sl where "sl = (if length (serverList st) \<le> ?i
           then serverList st @ replicate (?i + 1 - length (serverList st)) emptyPair
           else serverList st)"
  have grown: "(if ?i \<ge> length (serverList st)
                then resize (serverList st) (unat (indexNumber sid + 1))
                else serverList st) = sl"
  proof (cases "length (serverList st) \<le> ?i")
    case False
    then show ?thesis by (simp add: sl_def)
  next
    case True
    have "indexNumber sid + 1 \<noteq> 0"
    proof
      assume "indexNumber sid + 1 = 0"
      with True a show False
        by (simp add: add_locked_def Let_def resize_def)
    qed
    then have "unat (indexNumber sid + 1) = Suc ?i"
      by (rule unat_succ_32)
    with True show ?thesis
      by (simp add: sl_def resize_def)
  qed
  have len: "?i < length sl"
    by (simp add: sl_def)
  have "st' = st\<lparr> serverList := list_update sl ?i
                   ((sl ! ?i)\<lparr> nextGenerationNumber := generationNumber sid + 1,
                        entry := Some (added_entry sid locator serviceMask readSpeed) \<rparr>),
               numberOfMasters := (if has serviceMask MASTER_SERVICE
                                   then numberOfMasters st + 1 else numberOfMasters st),
               numberOfBackups := (if has serviceMask BACKUP_SERVICE
                                   then numberOfBackups st + 1 else numberOfBackups st),
               update := (update st)\<lparr> server := server (update st)
                    @ [serialize_entry (added_entry sid locator serviceMask readSpeed)] \<rparr>,
               trackerChanges := trackerChanges st
                    @ [(added_entry sid locator serviceMask readSpeed, SERVER_ADDED)] \<rparr>"
    using a len unfolding add_locked_def grown Let_def added_entry_def
    by (simp split: if_splits)
  with sl_def len show thesis
    by (rule that)
qed

lemma count_up_update:
  "i < length xs \<Longrightarrow>
   count_up s (list_update xs i y) + (if up_with s (xs ! i) then 1 else 0)
     = count_up s xs + (if up_with s y then 1 else 0)"
proof (induction xs arbitrary: i)
  case Nil
  then show ?case by simp
next
  case (Cons x xs)
  show ?case
  proof (cases i)
    case 0
    then show ?thesis by (simp add: count_up_def)
  next
    case (Suc j)
    with Cons.prems have "j < length xs" by simp
    from Cons.IH [OF this] Suc show ?thesis
      by (simp add: count_up_def)
  qed
qed

lemma count_up_update_same:
  "i < length xs \<Longrightarrow> up_with s y = up_with s (xs ! i) \<Longrightarrow>
   count_up s (list_update xs i y) = count_up s xs"
  using count_up_update [of i xs s y] by (simp split: if_splits)

lemma count_up_padded:
  "count_up s (xs @ replicate n emptyPair) = count_up s xs"
  by (induction n) (simp_all add: count_up_def up_with_def emptyPair_def replicate_app_Cons_same)

lemma counts_agree_commitUpdate:
  "counts_agree (commitUpdate st) = counts_agree st"
  by (simp add: counts_agree_def masterCount_def backupCount_def commitUpdate_frame)

lemma count_up_added:
  assumes len: "i < length sl" and free: "\<not> up_with s (sl ! i)"
    and e: "status e = UP" "services e = m"
  shows "count_up s (list_update sl i ((sl ! i)\<lparr> nextGenerationNumber := g, entry := Some e \<rparr>))
           = count_up s sl + (if has m s then 1 else 0)"
  using count_up_update [OF len, of s "(sl ! i)\<lparr> nextGenerationNumber := g, entry := Some e \<rparr>"]
    free e
  by (simp add: up_with_def)

lemma counts_agree_add_locked:
  assumes inv: "counts_agree st"
    and free: "add_on_uncounted (Add sid locator serviceMask readSpeed) st"
    and a: "add_locked st sid locator serviceMask readSpeed = Inr st'"
  shows "counts_agree st'"
proof -
  let ?i = "unat (indexNumber sid)"
  from a obtain sl where
    sl: "sl = (if length (serverList st) \<le> ?i
           then serverList st @ replicate (?i + 1 - length (serverList st)) emptyPair
           else serverList st)" and
    len: "?i < length sl" and
    sl': "serverList st' = list_update sl ?i
             ((sl ! ?i)\<lparr> nextGenerationNumber := generationNumber sid + 1,
                          entry := Some (added_entry sid locator serviceMask readSpeed) \<rparr>)" and
    m: "numberOfMasters st' = (if has serviceMask MASTER_SERVICE
                                   then numberOfMasters st + 1 else numberOfMasters st)" and
    b: "numberOfBackups st' = (if has serviceMask BACKUP_SERVICE
                                   then numberOfBackups st + 1 else numberOfBackups st)"
    by (rule add_locked_Inr) simp
  have same: "count_up s sl = count_up s (serverList st)" for s
    by (simp add: sl count_up_padded)
  have uncounted: "\<not> up_with s (sl ! ?i)" if "s = MASTER_SERVICE \<or> s = BACKUP_SERVICE" for s
  proof (cases "length (serverList st) \<le> ?i")
    case True
    then show ?thesis
      by (simp add: sl nth_append up_with_def emptyPair_def)
  next
    case False
    with free that show ?thesis
      by (auto simp: sl)
  qed
  have cnt: "count_up s (serverList st') = count_up s (serverList st) + (if has serviceMask s then 1 else 0)"
    if "s = MASTER_SERVICE \<or> s = BACKUP_SERVICE" for s
    unfolding sl' same [symmetric]
    by (rule count_up_added [OF len uncounted [OF that]]) (simp_all add: added_entry_simps)
  show ?thesis
    using inv by (simp add: counts_agree_def masterCount_def backupCount_def m b cnt)
qed

lemma crashed_locked_DOWN:
  assumes "getReferenceFromServerId st sid = Inr e" and "status e = DOWN"
  shows "crashed_locked st sid = Inl AssertionFailure"
  using assms by (simp add: getReference_Inr crashed_locked_def Let_def)

lemma crashed_locked_Inr:
  assumes c: "crashed_locked st sid = Inr st'"
  obtains (noop) e where "getReferenceFromServerId st sid = Inr e" and "status e = CRASHED"
      and "st' = st"
  | (up) e where "getReferenceFromServerId st sid = Inr e" and "status e = UP"
      and "st' = st\<lparr> serverList := list_update (serverList st) (unat (indexNumber sid))
                   ((serverList st ! unat (indexNumber sid))\<lparr> entry := Some (e\<lparr> status := CRASHED \<rparr>) \<rparr>),
               numberOfMasters := (if isMaster e then numberOfMasters st - 1 else numberOfMasters st),
               numberOfBackups := (if isBackup e then numberOfBackups st - 1 else numberOfBackups st),
               update := (update st)\<lparr> server := server (update st) @ [serialize_entry (e\<lparr> status := CRASHED \<rparr>)] \<rparr>,
               trackerChanges := trackerChanges st @ [(e\<lparr> status := CRASHED \<rparr>, SERVER_CRASHED)] \<rparr>"
proof (cases rule: getReference_cases [of st sid])
  case absent
  then have "crashed_locked st sid = Inl ServerListException"
    by (simp add: crashed_locked_unknown_iff)
  with c show ?thesis by simp
next
  case (present e)
  show ?thesis
  proof (cases "status e")
    case UP
    from c have "st' = st\<lparr> serverList := list_update (serverList st) (unat (indexNumber sid))
                   ((serverList st ! unat (indexNumber sid))\<lparr> entry := Some (e\<lparr> status := CRASHED \<rparr>) \<rparr>),
               numberOfMasters := (if isMaster e then numberOfMasters st - 1 else numberOfMasters st),
               numberOfBackups := (if isBackup e then numberOfBackups st - 1 else numberOfBackups st),
               update := (update st)\<lparr> server := server (update st) @ [serialize_entry (e\<lparr> status := CRASHED \<rparr>)] \<rparr>,
               trackerChanges := trackerChanges st @ [(e\<lparr> status := CRASHED \<rparr>, SERVER_CRASHED)] \<rparr>"
      unfolding crashed_locked_UP [OF present UP] by simp
    with present UP show ?thesis by (rule up)
  next
    case CRASHED
    from c have "st' = st"
      unfolding crashed_locked_CRASHED [OF present CRASHED] by simp
    with present CRASHED show ?thesis by (rule noop)
  next
    case DOWN
    from c show ?thesis
      unfolding crashed_locked_DOWN [OF present DOWN] by simp
  qed
qed

lemma word_of_nat_pred:
  "word_of_nat (Suc n) - 1 = (word_of_nat n :: 32 word)"
  by simp

lemma counts_agree_crashed_locked:
  assumes inv: "counts_agree st" and c: "crashed_locked st sid = Inr st'"
  shows "counts_agree st'"
  using c
proof (cases rule: crashed_locked_Inr)
  case (noop e)
  with inv show ?thesis by simp
next
  case (up e)
  let ?i = "unat (indexNumber sid)"
  let ?sl = "serverList st"
  have i: "?i < length ?sl" and es: "entry (?sl ! ?i) = Some e"
    using up(1) by (simp_all add: getReference_Inr)
  have was: "up_with s (?sl ! ?i) = has (services e) s" for s
    using es up(2) by (simp add: up_with_def)
  have now: "\<not> up_with s ((?sl ! ?i)\<lparr> entry := Some (e\<lparr> status := CRASHED \<rparr>) \<rparr>)" for s
    by (simp add: up_with_def)
  have cnt: "count_up s (serverList st') + (if has (services e) s then 1 else 0) = count_up s ?sl" for s
    using count_up_update [OF i, of s "(?sl ! ?i)\<lparr> entry := Some (e\<lparr> status := CRASHED \<rparr>) \<rparr>"]
    by (simp add: up(3) was now)
  have m: "numberOfMasters st' = word_of_nat (count_up MASTER_SERVICE (serverList st'))"
    using inv cnt [of MASTER_SERVICE, symmetric]
    by (simp add: up(3) counts_agree_def masterCount_def isMaster_def)
  have b: "numberOfBackups st' = word_of_nat (count_up BACKUP_SERVICE (serverList st'))"
    using inv cnt [of BACKUP_SERVICE, symmetric]
    by (simp add: up(3) counts_agree_def backupCount_def isBackup_def)
  from m b show ?thesis
    by (simp add: counts_agree_def masterCount_def backupCount_def)
qed

lemma crashed_locked_status:
  assumes c: "crashed_locked st sid = Inr st'"
  shows "unat (indexNumber sid) < length (serverList st') \<and>
         (\<exists>e. entry (serverList st' ! unat (indexNumber sid)) = Some e \<and> status e = CRASHED)"
  using c
proof (cases rule: crashed_locked_Inr)
  case (noop e)
  then show ?thesis by (simp add: getReference_Inr)
next
  case (up e)
  then show ?thesis by (simp add: getReference_Inr)
qed

lemma remove_locked_Inr:
  assumes r: "remove_locked st sid = Inr st'"
  obtains st1 e1 where "crashed_locked st sid = Inr st1"
    and "unat (indexNumber sid) < length (serverList st1)"
    and "entry (serverList st1 ! unat (indexNumber sid)) = Some e1" and "status e1 = CRASHED"
    and "st' = st1\<lparr> serverList := list_update (serverList st1) (unat (indexNumber sid))
                      ((serverList st1 ! unat (indexNumber sid))\<lparr> entry := None \<rparr>),
                    update := (update st1)\<lparr> server := server (update st1)
                                @ [serialize_entry (e1\<lparr> status := DOWN \<rparr>)] \<rparr>,
                    trackerChanges := trackerChanges st1 @ [(e1\<lparr> status := DOWN \<rparr>, SERVER_REMOVED)] \<rparr>"
proof -
  from r obtain st1 where c: "crashed_locked st sid = Inr st1"
    by (auto simp: remove_locked_def Let_def split: if_splits option.splits sum.splits)
  from crashed_locked_status [OF c] obtain e1 where
    i: "unat (indexNumber sid) < length (serverList st1)" and
    e1: "entry (serverList st1 ! unat (indexNumber sid)) = Some e1" and s: "status e1 = CRASHED"
    by blast
  from r c e1 have "st' = st1\<lparr> serverList := list_update (serverList st1) (unat (indexNumber sid))
                      ((serverList st1 ! unat (indexNumber sid))\<lparr> entry := None \<rparr>),
                    update := (update st1)\<lparr> server := server (update st1)
                                @ [serialize_entry (e1\<lparr> status := DOWN \<rparr>)] \<rparr>,
                    trackerChanges := trackerChanges st1 @ [(e1\<lparr> status := DOWN \<rparr>, SERVER_REMOVED)] \<rparr>"
    by (auto simp: remove_locked_def Let_def split: if_splits option.splits)
  with c i e1 s show thesis
    by (rule that)
qed

lemma counts_agree_remove_locked:
  assumes inv: "counts_agree st" and r: "remove_locked st sid = Inr st'"
  shows "counts_agree st'"
proof -
  let ?i = "unat (indexNumber sid)"
  from r obtain st1 e1 where c: "crashed_locked st sid = Inr st1"
    and i: "?i < length (serverList st1)"
    and e1: "entry (serverList st1 ! ?i) = Some e1" and s: "status e1 = CRASHED"
    and sl': "serverList st' = list_update (serverList st1) ?i ((serverList st1 ! ?i)\<lparr> entry := None \<rparr>)"
    and m: "numberOfMasters st' = numberOfMasters st1"
    and b: "numberOfBackups st' = numberOfBackups st1"
    by (rule remove_locked_Inr) simp
  have inv1: "counts_agree st1"
    using inv c by (rule counts_agree_crashed_locked)
  have "count_up s (serverList st') = count_up s (serverList st1)" for s
    unfolding sl' using i e1 s
    by (intro count_up_update_same) (simp_all add: up_with_def)
  with inv1 show ?thesis
    by (simp add: counts_agree_def masterCount_def backupCount_def m b)
qed

lemma counts_agree_generateUniqueId:
  assumes inv: "counts_agree st" and g: "generateUniqueId st = Inr (sid, st')"
  shows "counts_agree st'"
proof -
  from g obtain r sl where
    sl: "sl = (if length (serverList st) \<le> r
           then serverList st @ replicate (r + 1 - length (serverList st)) emptyPair
           else serverList st)" and
    len: "r < length sl" and free: "entry (sl ! r) = None" and
    st': "st' = st\<lparr> serverList := list_update sl r
             \<lparr> nextGenerationNumber = nextGenerationNumber (sl ! r) + 1,
               entry = Some (newEntry sid [] {}) \<rparr> \<rparr>"
    by (rule generateUniqueId_Inr)
  have "count_up s (serverList st') = count_up s sl" for s
    unfolding st' using len free
    by (simp add: count_up_update_same up_with_def newEntry_def has_def)
  moreover have "count_up s sl = count_up s (serverList st)" for s
    by (simp add: sl count_up_padded)
  ultimately show ?thesis
    using inv by (simp add: counts_agree_def masterCount_def backupCount_def st')
qed

lemma counts_agree_writeEntry:
  assumes inv: "counts_agree st" and g: "getReferenceFromServerId st sid = Inr e"
    and same: "status e' = status e" "services e' = services e"
  shows "counts_agree (writeEntry st sid e')"
proof -
  let ?i = "unat (indexNumber sid)"
  have i: "?i < length (serverList st)" and es: "entry (serverList st ! ?i) = Some e"
    using g by (simp_all add: getReference_Inr)
  have "count_up s (serverList (writeEntry st sid e')) = count_up s (serverList st)" for s
    using i es same
    by (simp add: writeEntry_def Let_def count_up_update_same up_with_def)
  with inv show ?thesis
    by (simp add: counts_agree_def masterCount_def backupCount_def writeEntry_def Let_def)
qed

lemma counts_agree_apply_op:
  assumes inv: "counts_agree st" and free: "add_on_uncounted c st"
    and a: "apply_op c st = Inr st'"
  shows "counts_agree st'"
proof (cases c)
  case (Add sid locator serviceMask readSpeed)
  with a obtain st1 where l: "add_locked st sid locator serviceMask readSpeed = Inr st1"
    and st': "st' = commitUpdate st1"
    by (auto simp: add_def split: sum.splits)
  from inv free l have "counts_agree st1"
    unfolding Add by (rule counts_agree_add_locked)
  then show ?thesis by (simp add: st' counts_agree_commitUpdate)
next
  case (Crashed sid)
  with a obtain st1 where l: "crashed_locked st sid = Inr st1" and st': "st' = commitUpdate st1"
    by (auto simp: crashed_def split: sum.splits)
  from inv l have "counts_agree st1"
    by (rule counts_agree_crashed_locked)
  then show ?thesis by (simp add: st' counts_agree_commitUpdate)
next
  case (Remove sid)
  with a obtain st1 where l: "remove_locked st sid = Inr st1" and st': "st' = commitUpdate st1"
    by (auto simp: remove_def split: sum.splits)
  from inv l have "counts_agree st1"
    by (rule counts_agree_remove_locked)
  then show ?thesis by (simp add: st' counts_agree_commitUpdate)
next
  case GenerateUniqueId
  with a obtain sid where "generateUniqueId st = Inr (sid, st')"
    by (auto split: sum.splits)
  with inv show ?thesis
    by (rule counts_agree_generateUniqueId)
next
  case (SetMinOpenSegmentId sid v)
  with a obtain e where g: "getReferenceFromServerId st sid = Inr e"
    and st': "st' = (if minOpenSegmentId e < v
                     then writeEntry st sid (e\<lparr> minOpenSegmentId := v \<rparr>) else st)"
    by (auto simp: setMinOpenSegmentId_def split: sum.splits)
  show ?thesis
    using inv counts_agree_writeEntry [OF inv g, of "e\<lparr> minOpenSegmentId := v \<rparr>"]
    by (simp add: st')
next
  case (SetReplicationId sid v)
  with a obtain e where g: "getReferenceFromServerId st sid = Inr e"
    and st': "st' = writeEntry st sid (e\<lparr> replicationId := v \<rparr>)"
    by (auto simp: setReplicationId_def split: sum.splits)
  show ?thesis
    using counts_agree_writeEntry [OF inv g, of "e\<lparr> replicationId := v \<rparr>"]
    by (simp add: st')
next
  case (AddServerInfoLogId sid v)
  with a obtain e where g: "getReferenceFromServerId st sid = Inr e"
    and st': "st' = writeEntry st sid (e\<lparr> serverInfoLogId := v \<rparr>)"
    by (auto simp: addServerInfoLogId_def split: sum.splits)
  show ?thesis
    using counts_agree_writeEntry [OF inv g, of "e\<lparr> serverInfoLogId := v \<rparr>"]
    by (simp add: st')
next
  case (AddServerUpdateLogId sid v)
  with a obtain e where g: "getReferenceFromServerId st sid = Inr e"
    and st': "st' = writeEntry st sid (e\<lparr> serverUpdateLogId := v \<rparr>)"
    by (auto simp: addServerUpdateLogId_def split: sum.splits)
  show ?thesis
    using counts_agree_writeEntry [OF inv g, of "e\<lparr> serverUpdateLogId := v \<rparr>"]
    by (simp add: st')
qed

lemma apply_op_error_cases:
  obtains (ok) st' where "apply_op c st = Inr st'"
  | (unknown) "apply_op c st = Inl ServerListException"
  | (fatal) err where "apply_op c st = Inl err" and "err \<noteq> ServerListException"
  by (cases "apply_op c st") auto

lemma run_Cons_ok: "apply_op c st = Inr st' \<Longrightarrow> run (c # cs) st = run cs st'"
  by simp

lemma run_Cons_unknown: "apply_op c st = Inl ServerListException \<Longrightarrow> run (c # cs) st = run cs st"
  by simp

lemma run_Cons_fatal:
  "apply_op c st = Inl err \<Longrightarrow> err \<noteq> ServerListException \<Longrightarrow> run (c # cs) st = None"
  by (cases err) simp_all

lemma counts_agree_run:
  "counts_agree st \<Longrightarrow> adds_on_uncounted cs st \<Longrightarrow> run cs st = Some st' \<Longrightarrow> counts_agree st'"
proof (induction cs arbitrary: st)
  case Nil
  then show ?case by simp
next
  case (Cons c cs)
  show ?case
  proof (cases rule: apply_op_error_cases [of c st])
    case (ok st1)
    with Cons.prems have "counts_agree st1" and "adds_on_uncounted cs st1" and "run cs st1 = Some st'"
      by (auto intro: counts_agree_apply_op)
    then show ?thesis by (rule Cons.IH)
  next
    case unknown
    with Cons.prems have "adds_on_uncounted cs st" and "run cs st = Some st'"
      by auto
    with Cons.prems(1) show ?thesis by (rule Cons.IH)
  next
    case (fatal err)
    with Cons.prems(3) show ?thesis
      by (simp add: run_Cons_fatal del: run.simps)
  qed
qed

lemma adds_on_uncounted_take:
  "adds_on_uncounted cs st \<Longrightarrow> adds_on_uncounted (take n cs) st"
proof (induction cs arbitrary: st n)
  case Nil
  then show ?case by simp
next
  case (Cons c cs)
  show ?case
  proof (cases n)
    case 0
    then show ?thesis by simp
  next
    case (Suc k)
    show ?thesis
    proof (cases rule: apply_op_error_cases [of c st])
      case (ok st1)
      with Cons.prems Cons.IH [of st1 k] Suc show ?thesis by simp
    next
      case unknown
      with Cons.prems Cons.IH [of st k] Suc show ?thesis by simp
    next
      case (fatal err)
      with Cons.prems Suc show ?thesis by (cases err) simp_all
    qed
  qed
qed

lemma counts_agree_initialList: "counts_agree initialList"
  by (simp add: counts_agree_def masterCount_def backupCount_def initialList_def count_up_def)

text \<open>
  Claim C2, as amended. Take a sequence of public calls on the initial list in which
  every \<open>add\<close> targets a slot that holds no entry counted as a master or as a backup.
  After every prefix of it the master count is the number of entries with status UP
  whose services contain MASTER, and the backup count the number of those whose
  services contain BACKUP: as 32-bit values in general, and as numbers when the table
  has fewer than \<open>2^32\<close> slots.
\<close>

theorem counts_follow_up_entries:
  assumes "adds_on_uncounted calls initialList"
    and "run (take n calls) initialList = Some st"
  shows "masterCount st = word_of_nat (count_up MASTER_SERVICE (serverList st)) \<and>
         backupCount st = word_of_nat (count_up BACKUP_SERVICE (serverList st)) \<and>
         (length (serverList st) < 2 ^ 32 \<longrightarrow>
            unat (masterCount st) = count_up MASTER_SERVICE (serverList st) \<and>
            unat (backupCount st) = count_up BACKUP_SERVICE (serverList st))"
proof -
  have "adds_on_uncounted (take n calls) initialList"
    using assms(1) by (rule adds_on_uncounted_take)
  with counts_agree_initialList have agree: "counts_agree st"
    using assms(2) by (rule counts_agree_run)
  have exact: "unat (word_of_nat (count_up s (serverList st)) :: 32 word) = count_up s (serverList st)"
    if "length (serverList st) < 2 ^ 32" for s
  proof -
    have "count_up s (serverList st) \<le> length (serverList st)"
      by (simp add: count_up_def)
    with that have "count_up s (serverList st) < 2 ^ 32"
      by simp
    then show ?thesis
      by (rule unat_word_of_nat_32)
  qed
  from agree exact show ?thesis
    by (simp add: counts_agree_def)
qed

lemma generateUniqueId_initialList: "generateUniqueId initialList = Inr (id_1_0, reserved)"
  by (simp add: generateUniqueId_def firstFreeIndex_def firstFreeIndex_loop_stop initialList_def
      resize_def Let_def reserved_def id_1_0_def emptyPair_def)

lemma add_reserved:
  "add reserved id_1_0 ''tcp:a'' {MASTER_SERVICE, BACKUP_SERVICE} 100 = Inr enlisted \<and>
   serverList enlisted = [emptyPair, \<lparr> nextGenerationNumber = 1,
       entry = Some (added_entry id_1_0 ''tcp:a'' {MASTER_SERVICE, BACKUP_SERVICE} 100) \<rparr>] \<and>
   numberOfMasters enlisted = 1 \<and> numberOfBackups enlisted = 1"
  by (simp add: enlisted_def add_def add_locked_def reserved_def initialList_def id_1_0_def
      commitUpdate_def Let_def has_def added_entry_def Clear_def)

text \<open>
  The theorem at the enlistment, for the prefix of its first two calls.
\<close>

theorem counts_follow_up_entries_witness:
  "adds_on_uncounted enlist_calls initialList \<and>
   run (take 2 enlist_calls) initialList = Some enlisted \<and>
   masterCount enlisted = 1 \<and> count_up MASTER_SERVICE (serverList enlisted) = 1 \<and>
   masterCount enlisted = word_of_nat (count_up MASTER_SERVICE (serverList enlisted)) \<and>
   backupCount enlisted = word_of_nat (count_up BACKUP_SERVICE (serverList enlisted))"
proof -
  have free: "add_on_uncounted (Add id_1_0 ''tcp:a'' {MASTER_SERVICE, BACKUP_SERVICE} 100) reserved"
    by (simp add: reserved_def id_1_0_def up_with_def newEntry_def has_def)
  have h: "adds_on_uncounted enlist_calls initialList"
    using free
    by (simp add: enlist_calls_def generateUniqueId_initialList add_reserved
        split: sum.splits Error.splits)
  have r: "run (take 2 enlist_calls) initialList = Some enlisted"
    by (simp add: enlist_calls_def numeral_2_eq_2 generateUniqueId_initialList add_reserved)
  have m: "masterCount enlisted = 1"
    by (simp add: masterCount_def add_reserved)
  have c: "count_up MASTER_SERVICE (serverList enlisted) = 1"
    by (simp add: count_up_def add_reserved up_with_def emptyPair_def added_entry_simps has_def)
  from counts_follow_up_entries [OF h r] h r m c show ?thesis
    by simp
qed

text \<open>
  Claim C2 as stated asserts the equality after every sequence of calls. After the same
  master is added twice under the same identifier, the master count is 2 and one entry
  is UP with the master service.
\<close>

theorem counts_follow_up_entries_counterexample:
  "map_option masterCount (run double_add initialList) = Some 2 \<and>
   map_option (count_up MASTER_SERVICE \<circ> serverList) (run double_add initialList) = Some 1"
  by code_simp

subsection \<open>Generation numbers\<close>

lemma slot_generation_padded:
  "slot_generation (xs @ replicate n emptyPair) j = slot_generation xs j"
  by (simp add: slot_generation_def nth_append emptyPair_def)

lemma slot_generation_update_other:
  "j \<noteq> i \<Longrightarrow> slot_generation (list_update xs i y) j = slot_generation xs j"
  by (simp add: slot_generation_def)

lemma slot_generation_update_same:
  "i < length xs \<Longrightarrow> slot_generation (list_update xs i y) i = nextGenerationNumber y"
  by (simp add: slot_generation_def)

lemma slot_generation_entry_update:
  "slot_generation (list_update xs i ((xs ! i)\<lparr> entry := x \<rparr>)) j = slot_generation xs j"
  by (cases "j = i") (simp_all add: slot_generation_def)

lemma nextGenerationOf_commitUpdate:
  "nextGenerationOf index (commitUpdate st) = nextGenerationOf index st"
  by (simp add: nextGenerationOf_def commitUpdate_frame)

lemma nextGenerationOf_add_locked:
  assumes a: "add_locked st sid locator serviceMask readSpeed = Inr st'"
  shows "nextGenerationOf index st' =
           (if index = indexNumber sid then generationNumber sid + 1 else nextGenerationOf index st)"
proof -
  let ?i = "unat (indexNumber sid)"
  from a obtain sl where
    sl: "sl = (if length (serverList st) \<le> ?i
           then serverList st @ replicate (?i + 1 - length (serverList st)) emptyPair
           else serverList st)" and
    len: "?i < length sl" and
    sl': "serverList st' = list_update sl ?i
             ((sl ! ?i)\<lparr> nextGenerationNumber := generationNumber sid + 1,
                          entry := Some (added_entry sid locator serviceMask readSpeed) \<rparr>)"
    by (rule add_locked_Inr) simp
  have pad: "slot_generation sl j = slot_generation (serverList st) j" for j
    by (simp add: sl slot_generation_padded)
  show ?thesis
  proof (cases "index = indexNumber sid")
    case True
    with len show ?thesis
      by (simp add: nextGenerationOf_def sl' slot_generation_update_same)
  next
    case False
    then have "unat index \<noteq> ?i"
      by (simp add: word_unat_eq_iff)
    with False show ?thesis
      by (simp add: nextGenerationOf_def sl' slot_generation_update_other pad)
  qed
qed

lemma nextGenerationOf_crashed_locked:
  assumes c: "crashed_locked st sid = Inr st'"
  shows "nextGenerationOf index st' = nextGenerationOf index st"
  using c
proof (cases rule: crashed_locked_Inr)
  case (noop e)
  then show ?thesis by simp
next
  case (up e)
  show ?thesis
    by (simp add: nextGenerationOf_def up(3) slot_generation_entry_update)
qed

lemma nextGenerationOf_remove_locked:
  assumes r: "remove_locked st sid = Inr st'"
  shows "nextGenerationOf index st' = nextGenerationOf index st"
proof -
  from r obtain st1 e1 where c: "crashed_locked st sid = Inr st1"
    and sl': "serverList st' = list_update (serverList st1) (unat (indexNumber sid))
               ((serverList st1 ! unat (indexNumber sid))\<lparr> entry := None \<rparr>)"
    by (rule remove_locked_Inr) simp
  have "nextGenerationOf index st' = nextGenerationOf index st1"
    by (simp add: nextGenerationOf_def sl' slot_generation_entry_update)
  with c show ?thesis
    by (simp add: nextGenerationOf_crashed_locked)
qed

lemma nextGenerationOf_writeEntry:
  "nextGenerationOf index (writeEntry st sid e) = nextGenerationOf index st"
  by (simp add: nextGenerationOf_def writeEntry_def Let_def slot_generation_entry_update)

lemma nextGenerationOf_generateUniqueId:
  assumes g: "generateUniqueId st = Inr (sid, st')"
  shows "generationNumber sid = nextGenerationOf (indexNumber sid) st"
    and "nextGenerationOf index st' =
           (if index = indexNumber sid then generationNumber sid + 1 else nextGenerationOf index st)"
proof -
  from g obtain r sl where
    sl: "sl = (if length (serverList st) \<le> r
           then serverList st @ replicate (r + 1 - length (serverList st)) emptyPair
           else serverList st)" and
    len: "r < length sl" and
    u: "unat (indexNumber sid) = r" and
    gen: "generationNumber sid = nextGenerationNumber (sl ! r)" and
    st': "st' = st\<lparr> serverList := list_update sl r
             \<lparr> nextGenerationNumber = nextGenerationNumber (sl ! r) + 1,
               entry = Some (newEntry sid [] {}) \<rparr> \<rparr>"
    by (rule generateUniqueId_Inr)
  have pad: "slot_generation sl j = slot_generation (serverList st) j" for j
    by (simp add: sl slot_generation_padded)
  have "slot_generation sl r = nextGenerationNumber (sl ! r)"
    using len by (simp add: slot_generation_def)
  then show "generationNumber sid = nextGenerationOf (indexNumber sid) st"
    by (simp add: nextGenerationOf_def u gen pad)
  show "nextGenerationOf index st' =
           (if index = indexNumber sid then generationNumber sid + 1 else nextGenerationOf index st)"
  proof (cases "index = indexNumber sid")
    case True
    with len show ?thesis
      by (simp add: nextGenerationOf_def st' u gen slot_generation_update_same)
  next
    case False
    then have "unat index \<noteq> r"
      using u by (auto simp: word_unat_eq_iff)
    with False show ?thesis
      by (simp add: nextGenerationOf_def st' slot_generation_update_other pad)
  qed
qed

lemma nextGenerationOf_apply_op:
  assumes k: "keeps_generation c st" and a: "apply_op c st = Inr st'"
  shows "nextGenerationOf index st \<le> nextGenerationOf index st'"
proof (cases c)
  case (Add sid locator serviceMask readSpeed)
  with a obtain st1 where l: "add_locked st sid locator serviceMask readSpeed = Inr st1"
    and st': "st' = commitUpdate st1"
    by (auto simp: add_def split: sum.splits)
  show ?thesis
    using k unfolding Add st' nextGenerationOf_commitUpdate nextGenerationOf_add_locked [OF l]
    by simp
next
  case (Crashed sid)
  with a obtain st1 where l: "crashed_locked st sid = Inr st1" and st': "st' = commitUpdate st1"
    by (auto simp: crashed_def split: sum.splits)
  show ?thesis
    by (simp add: st' nextGenerationOf_commitUpdate nextGenerationOf_crashed_locked [OF l])
next
  case (Remove sid)
  with a obtain st1 where l: "remove_locked st sid = Inr st1" and st': "st' = commitUpdate st1"
    by (auto simp: remove_def split: sum.splits)
  show ?thesis
    by (simp add: st' nextGenerationOf_commitUpdate nextGenerationOf_remove_locked [OF l])
next
  case GenerateUniqueId
  with a obtain sid where g: "generateUniqueId st = Inr (sid, st')"
    by (auto split: sum.splits)
  from k g have nm: "generationNumber sid \<noteq> - 1"
    by (simp add: GenerateUniqueId)
  then have "generationNumber sid < generationNumber sid + 1"
    by (rule word_less_succ)
  then show ?thesis
    using nextGenerationOf_generateUniqueId(1) [OF g]
      nextGenerationOf_generateUniqueId(2) [OF g, of index]
    by auto
next
  case (SetMinOpenSegmentId sid v)
  with a show ?thesis
    by (auto simp: setMinOpenSegmentId_def nextGenerationOf_writeEntry split: sum.splits if_splits)
next
  case (SetReplicationId sid v)
  with a show ?thesis
    by (auto simp: setReplicationId_def nextGenerationOf_writeEntry split: sum.splits)
next
  case (AddServerInfoLogId sid v)
  with a show ?thesis
    by (auto simp: addServerInfoLogId_def nextGenerationOf_writeEntry split: sum.splits)
next
  case (AddServerUpdateLogId sid v)
  with a show ?thesis
    by (auto simp: addServerUpdateLogId_def nextGenerationOf_writeEntry split: sum.splits)
qed

lemma issued_Cons_other:
  "c \<noteq> GenerateUniqueId \<Longrightarrow>
   issued (c # cs) st =
     (case apply_op c st of
        Inr st' \<Rightarrow> issued cs st'
      | Inl ServerListException \<Rightarrow> issued cs st
      | Inl err \<Rightarrow> [])"
  by (cases c) simp_all

lemma issued_Cons_cases:
  obtains (nothing) "issued (c # cs) st = []"
  | (generated) sid st' where "c = GenerateUniqueId" and "generateUniqueId st = Inr (sid, st')"
      and "apply_op c st = Inr st'" and "issued (c # cs) st = sid # issued cs st'"
  | (other) st' where "c \<noteq> GenerateUniqueId" and "apply_op c st = Inr st'"
      and "issued (c # cs) st = issued cs st'"
  | (unknown) "c \<noteq> GenerateUniqueId" and "apply_op c st = Inl ServerListException"
      and "issued (c # cs) st = issued cs st"
proof (cases "c = GenerateUniqueId")
  case True
  show ?thesis
  proof (cases "generateUniqueId st")
    case (Inl err)
    with True have "issued (c # cs) st = []" by simp
    then show ?thesis by (rule nothing)
  next
    case (Inr res)
    obtain sid st' where res: "res = (sid, st')" by (cases res)
    have 1: "generateUniqueId st = Inr (sid, st')"
      using Inr res by simp
    have 2: "apply_op c st = Inr st'"
      using True 1 by simp
    have 3: "issued (c # cs) st = sid # issued cs st'"
      using True 1 by simp
    from True 1 2 3 show ?thesis by (rule generated)
  qed
next
  case False
  show ?thesis
  proof (cases rule: apply_op_error_cases [of c st])
    case (ok st')
    have "issued (c # cs) st = issued cs st'"
      using False ok by (simp add: issued_Cons_other)
    with False ok show ?thesis by (rule other)
  next
    case unknown
    have "issued (c # cs) st = issued cs st"
      using False unknown by (simp add: issued_Cons_other)
    with False unknown show ?thesis by (rule that(4))
  next
    case (fatal err)
    with False have "issued (c # cs) st = []"
      by (cases err) (simp_all add: issued_Cons_other)
    then show ?thesis by (rule nothing)
  qed
qed

lemma issued_lower_bound:
  "generations_kept cs st \<Longrightarrow> sid \<in> set (issued cs st) \<Longrightarrow>
   nextGenerationOf (indexNumber sid) st \<le> generationNumber sid"
proof (induction cs arbitrary: st)
  case Nil
  then show ?case by simp
next
  case (Cons c cs)
  show ?case
  proof (cases rule: issued_Cons_cases [of c cs st])
    case nothing
    with Cons.prems show ?thesis by simp
  next
    case (generated sid0 st')
    from Cons.prems(1) generated have k: "keeps_generation c st" and ks: "generations_kept cs st'"
      by simp_all
    show ?thesis
    proof (cases "sid = sid0")
      case True
      then show ?thesis
        using nextGenerationOf_generateUniqueId(1) [OF generated(2)] by simp
    next
      case False
      with Cons.prems(2) generated have "sid \<in> set (issued cs st')" by simp
      with ks have "nextGenerationOf (indexNumber sid) st' \<le> generationNumber sid"
        by (rule Cons.IH)
      moreover have "nextGenerationOf (indexNumber sid) st \<le> nextGenerationOf (indexNumber sid) st'"
        using k generated(3) by (rule nextGenerationOf_apply_op)
      ultimately show ?thesis by simp
    qed
  next
    case (other st')
    from Cons.prems(1) other have k: "keeps_generation c st" and ks: "generations_kept cs st'"
      by simp_all
    from Cons.prems(2) other have "sid \<in> set (issued cs st')" by simp
    with ks have "nextGenerationOf (indexNumber sid) st' \<le> generationNumber sid"
      by (rule Cons.IH)
    moreover have "nextGenerationOf (indexNumber sid) st \<le> nextGenerationOf (indexNumber sid) st'"
      using k other(2) by (rule nextGenerationOf_apply_op)
    ultimately show ?thesis by simp
  next
    case unknown
    from Cons.prems(1) unknown have ks: "generations_kept cs st"
      by simp
    from Cons.prems(2) unknown have "sid \<in> set (issued cs st)" by simp
    with ks show ?thesis by (rule Cons.IH)
  qed
qed

lemma issued_ordered:
  "generations_kept cs st \<Longrightarrow> sorted_wrt generation_order (issued cs st)"
proof (induction cs arbitrary: st)
  case Nil
  then show ?case by simp
next
  case (Cons c cs)
  show ?case
  proof (cases rule: issued_Cons_cases [of c cs st])
    case nothing
    then show ?thesis by simp
  next
    case (generated sid0 st')
    from Cons.prems generated have k: "keeps_generation c st" and ks: "generations_kept cs st'"
      by simp_all
    from k generated have nm: "generationNumber sid0 \<noteq> - 1"
      by simp
    then have lt: "generationNumber sid0 < generationNumber sid0 + 1"
      by (rule word_less_succ)
    have "generation_order sid0 sid" if "sid \<in> set (issued cs st')" for sid
    proof (cases "indexNumber sid = indexNumber sid0")
      case True
      from ks that have "nextGenerationOf (indexNumber sid) st' \<le> generationNumber sid"
        by (rule issued_lower_bound)
      then have "generationNumber sid0 + 1 \<le> generationNumber sid"
        using nextGenerationOf_generateUniqueId(2) [OF generated(2), of "indexNumber sid"] True
        by simp
      with lt have "generationNumber sid0 < generationNumber sid"
        by (rule less_le_trans)
      then show ?thesis
        by (simp add: generation_order_def)
    next
      case False
      then show ?thesis by (auto simp: generation_order_def)
    qed
    moreover have "sorted_wrt generation_order (issued cs st')"
      using ks by (rule Cons.IH)
    ultimately show ?thesis
      by (simp add: generated(4))
  next
    case (other st')
    from Cons.prems other have "generations_kept cs st'" by simp
    then have "sorted_wrt generation_order (issued cs st')" by (rule Cons.IH)
    with other show ?thesis by simp
  next
    case unknown
    from Cons.prems unknown have "generations_kept cs st" by simp
    then have "sorted_wrt generation_order (issued cs st)" by (rule Cons.IH)
    with unknown show ?thesis by simp
  qed
qed

lemma add_returns:
  "indexNumber sid \<noteq> - 1 \<Longrightarrow> \<exists>st'. add st sid locator serviceMask readSpeed = Inr st'"
proof -
  assume "indexNumber sid \<noteq> - 1"
  then have "indexNumber sid + 1 \<noteq> 0"
    using max_word_wrap by blast
  then have "unat (indexNumber sid + 1) = Suc (unat (indexNumber sid))"
    by (rule unat_succ_32)
  then show ?thesis
    by (simp add: add_def add_locked_def Let_def resize_def)
qed

text \<open>
  Claim C1, as amended. \<open>add\<close> returns for every identifier whose index is not
  \<open>2^32 - 1\<close>. When it returns, the next generation number of the slot of the identifier
  is the generation of the identifier plus one (in 32 bits); that is the spec's maximum
  exactly when the slot's next generation number before the call was at most that
  value. In a sequence of calls in which every \<open>add\<close> satisfies this and no generation
  counter wraps around, of any two identifiers that \<open>generateUniqueId\<close> issues for the
  same slot the later has the strictly greater generation.
\<close>

theorem add_sets_next_generation:
  "(indexNumber sid \<noteq> - 1 \<longrightarrow> (\<exists>st'. add st sid locator serviceMask readSpeed = Inr st')) \<and>
   (\<forall>st'. add st sid locator serviceMask readSpeed = Inr st' \<longrightarrow>
      nextGenerationOf (indexNumber sid) st' = generationNumber sid + 1 \<and>
      (nextGenerationOf (indexNumber sid) st' =
         spec_next_generation (nextGenerationOf (indexNumber sid) st) sid
       \<longleftrightarrow> nextGenerationOf (indexNumber sid) st \<le> generationNumber sid + 1)) \<and>
   (generations_kept calls st \<longrightarrow> sorted_wrt generation_order (issued calls st))"
proof (intro conjI allI impI)
  assume "indexNumber sid \<noteq> - 1"
  then show "\<exists>st'. add st sid locator serviceMask readSpeed = Inr st'"
    by (rule add_returns)
next
  fix st'
  assume "add st sid locator serviceMask readSpeed = Inr st'"
  then obtain st1 where l: "add_locked st sid locator serviceMask readSpeed = Inr st1"
    and st': "st' = commitUpdate st1"
    by (auto simp: add_def split: sum.splits)
  show n: "nextGenerationOf (indexNumber sid) st' = generationNumber sid + 1"
    by (simp add: st' nextGenerationOf_commitUpdate nextGenerationOf_add_locked [OF l])
  show "nextGenerationOf (indexNumber sid) st' =
         spec_next_generation (nextGenerationOf (indexNumber sid) st) sid
       \<longleftrightarrow> nextGenerationOf (indexNumber sid) st \<le> generationNumber sid + 1"
    unfolding n by (auto simp: spec_next_generation_def max_def)
next
  assume "generations_kept calls st"
  then show "sorted_wrt generation_order (issued calls st)"
    by (rule issued_ordered)
qed

lemmas call_defs =
  add_def add_locked_def crashed_def crashed_locked_def remove_def remove_locked_def
  commitUpdate_def generateUniqueId_def firstFreeIndex_def firstFreeIndex_loop_stop
  initialList_def resize_def emptyPair_def newEntry_def Clear_def Let_def
  id_1_0_def id_1_1_def has_def isMaster_def isBackup_def serialize_entry_def

text \<open>
  Claim C1 as stated asserts the maximum after every \<open>add\<close>, and growing generations
  in every sequence. After slot 1 has been issued and released twice its next generation
  number is 2; \<open>add\<close> of (1,0) sets it to 1, where the spec's maximum is 2; and after the
  removal of (1,0) the identifier (1,1) is issued a second time.
\<close>

theorem add_sets_next_generation_counterexample:
  "map_option (nextGenerationOf 1) (run regress_setup initialList) = Some 2 \<and>
   map_option (nextGenerationOf 1)
     (run (regress_setup @ [Add id_1_0 ''tcp:a'' {MASTER_SERVICE} 0]) initialList) = Some 1 \<and>
   spec_next_generation 2 id_1_0 = 2 \<and>
   issued regress_calls initialList = [id_1_0, id_1_1, id_1_1]"
proof -
  have 1: "map_option (nextGenerationOf 1) (run regress_setup initialList) = Some 2"
    by (simp add: regress_setup_def call_defs nextGenerationOf_def slot_generation_def)
  have 2: "map_option (nextGenerationOf 1)
     (run (regress_setup @ [Add id_1_0 ''tcp:a'' {MASTER_SERVICE} 0]) initialList) = Some 1"
    by (simp add: regress_setup_def call_defs nextGenerationOf_def slot_generation_def)
  have 3: "spec_next_generation 2 id_1_0 = 2"
    by (simp add: spec_next_generation_def id_1_0_def)
  have 4: "issued regress_calls initialList = [id_1_0, id_1_1, id_1_1]"
    by (simp add: regress_calls_def regress_setup_def call_defs)
  from 1 2 3 4 show ?thesis by blast
qed

text \<open>
  The theorem at the \<open>add\<close> that follows the first \<open>generateUniqueId\<close>, and at the
  sequence in which a server enlists, is removed, and its slot is issued again.
\<close>

theorem add_sets_next_generation_witness:
  "indexNumber id_1_0 \<noteq> - 1 \<and>
   add reserved id_1_0 ''tcp:a'' {MASTER_SERVICE, BACKUP_SERVICE} 100 = Inr enlisted \<and>
   nextGenerationOf (indexNumber id_1_0) reserved \<le> generationNumber id_1_0 + 1 \<and>
   nextGenerationOf (indexNumber id_1_0) enlisted = 1 \<and>
   nextGenerationOf (indexNumber id_1_0) enlisted
     = spec_next_generation (nextGenerationOf (indexNumber id_1_0) reserved) id_1_0 \<and>
   generations_kept reenlist_calls initialList \<and>
   issued reenlist_calls initialList = [id_1_0, id_1_1] \<and>
   sorted_wrt generation_order (issued reenlist_calls initialList)"
proof -
  have i: "indexNumber id_1_0 \<noteq> - 1"
    by (simp add: id_1_0_def)
  have a: "add reserved id_1_0 ''tcp:a'' {MASTER_SERVICE, BACKUP_SERVICE} 100 = Inr enlisted"
    using add_reserved by simp
  have b: "nextGenerationOf (indexNumber id_1_0) reserved \<le> generationNumber id_1_0 + 1"
    by (simp add: nextGenerationOf_def slot_generation_def reserved_def id_1_0_def)
  have k: "generations_kept reenlist_calls initialList"
    by (simp add: reenlist_calls_def call_defs nextGenerationOf_def slot_generation_def)
  have s: "issued reenlist_calls initialList = [id_1_0, id_1_1]"
    by (simp add: reenlist_calls_def call_defs)
  have g: "generationNumber id_1_0 + 1 = 1"
    by (simp add: id_1_0_def)
  note at_add = add_sets_next_generation [where sid = id_1_0 and st = reserved
      and locator = "''tcp:a''" and serviceMask = "{MASTER_SERVICE, BACKUP_SERVICE}"
      and readSpeed = 100 and calls = "[]"]
  from at_add a have n0: "nextGenerationOf (indexNumber id_1_0) enlisted = generationNumber id_1_0 + 1"
    by blast
  with g have n1: "nextGenerationOf (indexNumber id_1_0) enlisted = 1"
    by simp
  from at_add a b have n2: "nextGenerationOf (indexNumber id_1_0) enlisted
     = spec_next_generation (nextGenerationOf (indexNumber id_1_0) reserved) id_1_0"
    by blast
  note at_calls = add_sets_next_generation [where sid = id_1_0 and st = initialList
      and locator = "''tcp:a''" and serviceMask = "{MASTER_SERVICE, BACKUP_SERVICE}"
      and readSpeed = 100 and calls = reenlist_calls]
  from at_calls k have srt: "sorted_wrt generation_order (issued reenlist_calls initialList)"
    by blast
  from i a b n1 n2 k s srt show ?thesis
    by blast
qed

subsection \<open>Invariants of the lists that sequences of calls reach\<close>

lemma table_indexed_iff:
  "table_indexed sl \<longleftrightarrow> (\<forall>j < length sl. slot_indexed j (sl ! j))"
  by (auto simp: table_indexed_def list_all_length)

lemma slots_indexed_table: "slots_indexed st \<longleftrightarrow> table_indexed (serverList st)"
  by (simp add: slots_indexed_def table_indexed_def slot_indexed_def)

lemma table_indexed_padded:
  "table_indexed xs \<Longrightarrow> table_indexed (xs @ replicate n emptyPair)"
  by (auto simp: table_indexed_iff nth_append slot_indexed_def emptyPair_def)

lemma table_indexed_update:
  assumes "table_indexed xs" and "slot_indexed i y"
  shows "table_indexed (list_update xs i y)"
proof -
  have "slot_indexed j (list_update xs i y ! j)" if "j < length xs" for j
    using assms that by (cases "j = i") (simp_all add: table_indexed_iff)
  then show ?thesis
    by (simp add: table_indexed_iff)
qed

lemma slots_indexed_commitUpdate: "slots_indexed (commitUpdate st) = slots_indexed st"
  by (simp add: slots_indexed_table commitUpdate_frame)

lemma slots_indexed_writeEntry:
  assumes "slots_indexed st" and "getReferenceFromServerId st sid = Inr e"
    and "serverId e' = serverId e"
  shows "slots_indexed (writeEntry st sid e')"
  using assms
  by (simp add: slots_indexed_table writeEntry_def Let_def getReference_Inr
      table_indexed_update slot_indexed_def)

lemma slots_indexed_updateEntryVersion:
  assumes "slots_indexed st"
  shows "slots_indexed (updateEntryVersion st sid v)"
proof (cases rule: getReference_cases [of st sid])
  case absent
  with assms show ?thesis by (simp add: updateEntryVersion_def)
next
  case (present e)
  have "slots_indexed (writeEntry st sid (e\<lparr> serverListVersion := v, isBeingUpdated := False \<rparr>))"
    using assms present by (rule slots_indexed_writeEntry) simp
  then show ?thesis
    by (simp add: updateEntryVersion_def present Let_def slots_indexed_table)
qed

lemma slots_indexed_apply_op:
  assumes inv: "slots_indexed st" and a: "apply_op c st = Inr st'"
  shows "slots_indexed st'"
proof (cases c)
  case (Add sid locator serviceMask readSpeed)
  with a obtain st1 where l: "add_locked st sid locator serviceMask readSpeed = Inr st1"
    and st': "st' = commitUpdate st1"
    by (auto simp: add_def split: sum.splits)
  from l obtain sl where
    sl: "sl = (if length (serverList st) \<le> unat (indexNumber sid)
           then serverList st @ replicate (unat (indexNumber sid) + 1 - length (serverList st)) emptyPair
           else serverList st)" and
    sl': "serverList st1 = list_update sl (unat (indexNumber sid))
             ((sl ! unat (indexNumber sid))\<lparr> nextGenerationNumber := generationNumber sid + 1,
                          entry := Some (added_entry sid locator serviceMask readSpeed) \<rparr>)"
    by (rule add_locked_Inr) simp
  have "table_indexed sl"
    using inv by (simp add: sl slots_indexed_table table_indexed_padded)
  then have "table_indexed (serverList st1)"
    unfolding sl' by (rule table_indexed_update) (simp add: slot_indexed_def added_entry_simps)
  then show ?thesis
    by (simp add: st' slots_indexed_table commitUpdate_frame)
next
  case (Crashed sid)
  with a obtain st1 where l: "crashed_locked st sid = Inr st1" and st': "st' = commitUpdate st1"
    by (auto simp: crashed_def split: sum.splits)
  from l have "slots_indexed st1"
  proof (cases rule: crashed_locked_Inr)
    case (noop e)
    with inv show ?thesis by simp
  next
    case (up e)
    from inv up(1) show ?thesis
      by (simp add: up(3) slots_indexed_table table_indexed_update slot_indexed_def
          getReference_Inr)
  qed
  then show ?thesis by (simp add: st' slots_indexed_commitUpdate)
next
  case (Remove sid)
  with a obtain st1 where l: "remove_locked st sid = Inr st1" and st': "st' = commitUpdate st1"
    by (auto simp: remove_def split: sum.splits)
  from l obtain st0 e1 where c: "crashed_locked st sid = Inr st0"
    and sl': "serverList st1 = list_update (serverList st0) (unat (indexNumber sid))
               ((serverList st0 ! unat (indexNumber sid))\<lparr> entry := None \<rparr>)"
    by (rule remove_locked_Inr) simp
  from c have "slots_indexed st0"
  proof (cases rule: crashed_locked_Inr)
    case (noop e)
    with inv show ?thesis by simp
  next
    case (up e)
    from inv up(1) show ?thesis
      by (simp add: up(3) slots_indexed_table table_indexed_update slot_indexed_def
          getReference_Inr)
  qed
  then have "table_indexed (serverList st1)"
    unfolding sl' slots_indexed_table
    by (rule table_indexed_update) (simp add: slot_indexed_def)
  then show ?thesis
    by (simp add: st' slots_indexed_table commitUpdate_frame)
next
  case GenerateUniqueId
  with a obtain sid where g: "generateUniqueId st = Inr (sid, st')"
    by (auto split: sum.splits)
  from g obtain r sl where
    sl: "sl = (if length (serverList st) \<le> r
           then serverList st @ replicate (r + 1 - length (serverList st)) emptyPair
           else serverList st)" and
    u: "unat (indexNumber sid) = r" and
    st': "st' = st\<lparr> serverList := list_update sl r
             \<lparr> nextGenerationNumber = nextGenerationNumber (sl ! r) + 1,
               entry = Some (newEntry sid [] {}) \<rparr> \<rparr>"
    by (rule generateUniqueId_Inr)
  have "table_indexed sl"
    using inv by (simp add: sl slots_indexed_table table_indexed_padded)
  then have "table_indexed (serverList st')"
    unfolding st' using u
    by (simp add: table_indexed_update slot_indexed_def newEntry_def)
  then show ?thesis by (simp add: slots_indexed_table)
next
  case (SetMinOpenSegmentId sid v)
  with a obtain e where g: "getReferenceFromServerId st sid = Inr e"
    and st': "st' = (if minOpenSegmentId e < v
                     then writeEntry st sid (e\<lparr> minOpenSegmentId := v \<rparr>) else st)"
    by (auto simp: setMinOpenSegmentId_def split: sum.splits)
  show ?thesis
    using inv slots_indexed_writeEntry [OF inv g, of "e\<lparr> minOpenSegmentId := v \<rparr>"]
    by (simp add: st')
next
  case (SetReplicationId sid v)
  with a obtain e where g: "getReferenceFromServerId st sid = Inr e"
    and st': "st' = writeEntry st sid (e\<lparr> replicationId := v \<rparr>)"
    by (auto simp: setReplicationId_def split: sum.splits)
  show ?thesis
    using slots_indexed_writeEntry [OF inv g, of "e\<lparr> replicationId := v \<rparr>"]
    by (simp add: st')
next
  case (AddServerInfoLogId sid v)
  with a obtain e where g: "getReferenceFromServerId st sid = Inr e"
    and st': "st' = writeEntry st sid (e\<lparr> serverInfoLogId := v \<rparr>)"
    by (auto simp: addServerInfoLogId_def split: sum.splits)
  show ?thesis
    using slots_indexed_writeEntry [OF inv g, of "e\<lparr> serverInfoLogId := v \<rparr>"]
    by (simp add: st')
next
  case (AddServerUpdateLogId sid v)
  with a obtain e where g: "getReferenceFromServerId st sid = Inr e"
    and st': "st' = writeEntry st sid (e\<lparr> serverUpdateLogId := v \<rparr>)"
    by (auto simp: addServerUpdateLogId_def split: sum.splits)
  show ?thesis
    using slots_indexed_writeEntry [OF inv g, of "e\<lparr> serverUpdateLogId := v \<rparr>"]
    by (simp add: st')
qed

lemma slots_indexed_run:
  "slots_indexed st \<Longrightarrow> run cs st = Some st' \<Longrightarrow> slots_indexed st'"
proof (induction cs arbitrary: st)
  case Nil
  then show ?case by simp
next
  case (Cons c cs)
  show ?case
  proof (cases rule: apply_op_error_cases [of c st])
    case (ok st1)
    with Cons.prems have "slots_indexed st1" and "run cs st1 = Some st'"
      by (auto intro: slots_indexed_apply_op)
    then show ?thesis by (rule Cons.IH)
  next
    case unknown
    with Cons.prems have "run cs st = Some st'" by simp
    with Cons.prems(1) show ?thesis by (rule Cons.IH)
  next
    case (fatal err)
    with Cons.prems(2) show ?thesis
      by (simp add: run_Cons_fatal del: run.simps)
  qed
qed

lemma slots_indexed_initialList: "slots_indexed initialList"
  by (simp add: slots_indexed_def initialList_def)

text \<open>
  Every list that a sequence of public calls reaches from the initial list satisfies
  invariant I1; the updater's \<open>updateEntryVersion\<close> keeps it too.
\<close>

lemma slots_indexed_reachable:
  "run calls initialList = Some st \<Longrightarrow> slots_indexed st"
  using slots_indexed_initialList by (rule slots_indexed_run)

lemma history_sorted_cong:
  "version a = version b \<Longrightarrow> updates a = updates b \<Longrightarrow> history_sorted a = history_sorted b"
  by (simp add: history_sorted_def)

lemma add_locked_history:
  assumes "add_locked st sid locator serviceMask readSpeed = Inr st'"
  shows "version st' = version st \<and> updates st' = updates st"
  using assms by (rule add_locked_Inr) simp

lemma crashed_locked_history:
  assumes "crashed_locked st sid = Inr st'"
  shows "version st' = version st \<and> updates st' = updates st"
  using assms by (cases rule: crashed_locked_Inr) simp_all

lemma remove_locked_history:
  assumes "remove_locked st sid = Inr st'"
  shows "version st' = version st \<and> updates st' = updates st"
proof -
  from assms obtain st1 e1 where c: "crashed_locked st sid = Inr st1"
    and "version st' = version st1" and "updates st' = updates st1"
    by (rule remove_locked_Inr) simp
  with crashed_locked_history [OF c] show ?thesis by simp
qed

lemma generateUniqueId_history:
  assumes "generateUniqueId st = Inr (sid, st')"
  shows "version st' = version st \<and> updates st' = updates st"
  using assms by (rule generateUniqueId_Inr) simp

lemma writeEntry_history:
  "version (writeEntry st sid e) = version st \<and> updates (writeEntry st sid e) = updates st"
  by (simp add: writeEntry_def Let_def)

lemma unat_version_bound:
  fixes v :: "64 word"
  shows "unat v < 2 ^ 64 - 1 \<Longrightarrow> v \<noteq> - 1"
  by (auto simp: unsigned_minus_1_eq_mask mask_eq_exp_minus_1)

lemma unat_version_commitUpdate:
  "unat (version (commitUpdate st)) \<le> Suc (unat (version st))"
proof (cases "server (update st) = []")
  case True
  then show ?thesis by (simp add: commitUpdate_def)
next
  case False
  have "unat (version st + 1) \<le> unat (version st) + 1"
    by (simp add: unat_word_ariths)
  with False show ?thesis
    by (simp add: commitUpdate_def Let_def)
qed

lemma history_commit_after:
  assumes same: "version st1 = version st" "updates st1 = updates st"
    and h: "history_sorted st" and b: "unat (version st) < 2 ^ 64 - 1"
  shows "history_sorted (commitUpdate st1) \<and>
         unat (version (commitUpdate st1)) \<le> Suc (unat (version st))"
proof -
  have "history_sorted st1"
    using h history_sorted_cong [OF same] by simp
  moreover have "version st1 \<noteq> - 1"
    using b same by (simp add: unat_version_bound)
  ultimately have "history_sorted (commitUpdate st1)"
    by (rule history_sorted_commitUpdate)
  with unat_version_commitUpdate [of st1] same show ?thesis by simp
qed

lemma history_sorted_apply_op:
  assumes a: "apply_op c st = Inr st'" and h: "history_sorted st"
    and b: "unat (version st) < 2 ^ 64 - 1"
  shows "history_sorted st' \<and> unat (version st') \<le> Suc (unat (version st))"
proof (cases c)
  case (Add sid locator serviceMask readSpeed)
  with a obtain st1 where l: "add_locked st sid locator serviceMask readSpeed = Inr st1"
    and st': "st' = commitUpdate st1"
    by (auto simp: add_def split: sum.splits)
  from add_locked_history [OF l] show ?thesis
    unfolding st' using h b by (intro history_commit_after) simp_all
next
  case (Crashed sid)
  with a obtain st1 where l: "crashed_locked st sid = Inr st1" and st': "st' = commitUpdate st1"
    by (auto simp: crashed_def split: sum.splits)
  from crashed_locked_history [OF l] show ?thesis
    unfolding st' using h b by (intro history_commit_after) simp_all
next
  case (Remove sid)
  with a obtain st1 where l: "remove_locked st sid = Inr st1" and st': "st' = commitUpdate st1"
    by (auto simp: remove_def split: sum.splits)
  from remove_locked_history [OF l] show ?thesis
    unfolding st' using h b by (intro history_commit_after) simp_all
next
  case GenerateUniqueId
  with a obtain sid where g: "generateUniqueId st = Inr (sid, st')"
    by (auto split: sum.splits)
  from generateUniqueId_history [OF g] h show ?thesis
    using history_sorted_cong [of st' st] by simp
next
  case (SetMinOpenSegmentId sid v)
  with a have "version st' = version st \<and> updates st' = updates st"
    by (auto simp: setMinOpenSegmentId_def writeEntry_history split: sum.splits if_splits)
  with h show ?thesis
    using history_sorted_cong [of st' st] by simp
next
  case (SetReplicationId sid v)
  with a have "version st' = version st \<and> updates st' = updates st"
    by (auto simp: setReplicationId_def writeEntry_history split: sum.splits)
  with h show ?thesis
    using history_sorted_cong [of st' st] by simp
next
  case (AddServerInfoLogId sid v)
  with a have "version st' = version st \<and> updates st' = updates st"
    by (auto simp: addServerInfoLogId_def writeEntry_history split: sum.splits)
  with h show ?thesis
    using history_sorted_cong [of st' st] by simp
next
  case (AddServerUpdateLogId sid v)
  with a have "version st' = version st \<and> updates st' = updates st"
    by (auto simp: addServerUpdateLogId_def writeEntry_history split: sum.splits)
  with h show ?thesis
    using history_sorted_cong [of st' st] by simp
qed

lemma history_sorted_run:
  "run cs st = Some st' \<Longrightarrow> history_sorted st \<Longrightarrow>
   unat (version st) + length cs < 2 ^ 64 \<Longrightarrow>
   history_sorted st' \<and> unat (version st') \<le> unat (version st) + length cs"
proof (induction cs arbitrary: st)
  case Nil
  then show ?case by simp
next
  case (Cons c cs)
  show ?case
  proof (cases rule: apply_op_error_cases [of c st])
    case (ok st1)
    from Cons.prems(3) have b: "unat (version st) < 2 ^ 64 - 1"
      by simp
    from history_sorted_apply_op [OF ok Cons.prems(2) b]
    have h1: "history_sorted st1" and v1: "unat (version st1) \<le> Suc (unat (version st))"
      by simp_all
    from Cons.prems(1) ok have r1: "run cs st1 = Some st'"
      by simp
    from v1 Cons.prems(3) have b1: "unat (version st1) + length cs < 2 ^ 64"
      by simp
    from Cons.IH [OF r1 h1 b1] v1 show ?thesis
      by simp
  next
    case unknown
    with Cons.prems(1) have r: "run cs st = Some st'" by simp
    from Cons.prems(3) have b: "unat (version st) + length cs < 2 ^ 64"
      by simp
    from Cons.IH [OF r Cons.prems(2) b] show ?thesis
      by simp
  next
    case (fatal err)
    with Cons.prems(1) show ?thesis
      by (simp add: run_Cons_fatal del: run.simps)
  qed
qed

text \<open>
  Every list that fewer than \<open>2^64\<close> public calls reach from the initial list has a
  history sorted strictly by version, and a committed version that is at most the
  number of calls.
\<close>

lemma history_sorted_reachable:
  assumes "run calls initialList = Some st" and "length calls < 2 ^ 64"
  shows "history_sorted st \<and> unat (version st) \<le> length calls"
proof -
  have "history_sorted initialList"
    by (simp add: history_sorted_def initialList_def)
  moreover have "unat (version initialList) + length calls < 2 ^ 64"
    using assms(2) by (simp add: initialList_def)
  ultimately show ?thesis
    using history_sorted_run [OF assms(1)] by (simp add: initialList_def)
qed

subsection \<open>Unknown identifiers, on the lists that calls reach\<close>

text \<open>
  Claim C8. On a list that a sequence of public calls reaches from the initial list (or
  on any list in which every entry sits in the slot of its index, invariant I1), each
  id-keyed read or mutation throws \<open>ServerListException\<close> (the spec's UnknownServer)
  exactly when no occupied slot holds an entry whose id is the argument, and the
  index-keyed read throws the index exception (the spec's OutOfRange) exactly when the
  index is not less than the size of the table.
\<close>

theorem unknown_server_exactly:
  assumes reach: "run calls initialList = Some st \<or> slots_indexed st"
  shows "(at_serverId st sid = Inl ServerListException \<longleftrightarrow> \<not> holds_id st sid) \<and>
         (crashed st sid = Inl ServerListException \<longleftrightarrow> \<not> holds_id st sid) \<and>
         (remove st sid = Inl ServerListException \<longleftrightarrow> \<not> holds_id st sid) \<and>
         (setMinOpenSegmentId st sid v = Inl ServerListException \<longleftrightarrow> \<not> holds_id st sid) \<and>
         (setReplicationId st sid v = Inl ServerListException \<longleftrightarrow> \<not> holds_id st sid) \<and>
         (addServerInfoLogId st sid v = Inl ServerListException \<longleftrightarrow> \<not> holds_id st sid) \<and>
         (getServerInfoLogId st sid = Inl ServerListException \<longleftrightarrow> \<not> holds_id st sid) \<and>
         (addServerUpdateLogId st sid v = Inl ServerListException \<longleftrightarrow> \<not> holds_id st sid) \<and>
         (getServerUpdateLogId st sid = Inl ServerListException \<longleftrightarrow> \<not> holds_id st sid) \<and>
         (at_index st index = Inl IndexBeyondArrayLength \<longleftrightarrow> \<not> index < length (serverList st))"
proof -
  have inv: "slots_indexed st"
    using reach slots_indexed_reachable by blast
  note u = getReference_unknown_iff [OF inv, of sid, symmetric]
  have 1: "at_serverId st sid = Inl ServerListException \<longleftrightarrow> \<not> holds_id st sid"
    by (simp add: u at_serverId_def)
  have 2: "crashed st sid = Inl ServerListException \<longleftrightarrow> \<not> holds_id st sid"
    unfolding u crashed_locked_unknown_iff [symmetric]
    by (simp add: crashed_def split: sum.splits)
  have 3: "remove st sid = Inl ServerListException \<longleftrightarrow> \<not> holds_id st sid"
    unfolding u remove_locked_unknown_iff [symmetric]
    by (simp add: remove_def split: sum.splits)
  have 4: "setMinOpenSegmentId st sid v = Inl ServerListException \<longleftrightarrow> \<not> holds_id st sid"
    unfolding u by (simp add: setMinOpenSegmentId_def split: sum.splits)
  have 5: "setReplicationId st sid v = Inl ServerListException \<longleftrightarrow> \<not> holds_id st sid"
    unfolding u by (simp add: setReplicationId_def split: sum.splits)
  have 6: "addServerInfoLogId st sid v = Inl ServerListException \<longleftrightarrow> \<not> holds_id st sid"
    unfolding u by (simp add: addServerInfoLogId_def split: sum.splits)
  have 7: "getServerInfoLogId st sid = Inl ServerListException \<longleftrightarrow> \<not> holds_id st sid"
    unfolding u by (simp add: getServerInfoLogId_def split: sum.splits)
  have 8: "addServerUpdateLogId st sid v = Inl ServerListException \<longleftrightarrow> \<not> holds_id st sid"
    unfolding u by (simp add: addServerUpdateLogId_def split: sum.splits)
  have 9: "getServerUpdateLogId st sid = Inl ServerListException \<longleftrightarrow> \<not> holds_id st sid"
    unfolding u by (simp add: getServerUpdateLogId_def split: sum.splits)
  have 10: "at_index st index = Inl IndexBeyondArrayLength \<longleftrightarrow> \<not> index < length (serverList st)"
    by (simp add: at_index_def)
  from 1 2 3 4 5 6 7 8 9 10 show ?thesis by blast
qed

text \<open>
  The theorem at the list with one master under (1,0), reached by one \<open>add\<close>: (1,0) is
  known, (1,1), the same slot in another generation, is not; the index 2 is out of range
  and the index 1 is not.
\<close>

theorem unknown_server_exactly_witness:
  "run [Add id_1_0 ''tcp:a'' {MASTER_SERVICE, MEMBERSHIP_SERVICE} 0] initialList = Some oneMasterUp \<and>
   holds_id oneMasterUp id_1_0 \<and> at_serverId oneMasterUp id_1_0 \<noteq> Inl ServerListException \<and>
   \<not> holds_id oneMasterUp id_1_1 \<and> crashed oneMasterUp id_1_1 = Inl ServerListException \<and>
   at_index oneMasterUp 2 = Inl IndexBeyondArrayLength \<and>
   at_index oneMasterUp 1 \<noteq> Inl IndexBeyondArrayLength"
proof -
  have a: "add initialList id_1_0 ''tcp:a'' {MASTER_SERVICE, MEMBERSHIP_SERVICE} 0 = Inr oneMasterUp"
    by (simp add: oneMasterUp_def add_def add_locked_def initialList_def id_1_0_def resize_def
        Let_def)
  have r: "run [Add id_1_0 ''tcp:a'' {MASTER_SERVICE, MEMBERSHIP_SERVICE} 0] initialList
             = Some oneMasterUp"
    by (simp add: a)
  then have reach: "run [Add id_1_0 ''tcp:a'' {MASTER_SERVICE, MEMBERSHIP_SERVICE} 0] initialList
             = Some oneMasterUp \<or> slots_indexed oneMasterUp"
    by (rule disjI1)
  have h0: "holds_id oneMasterUp id_1_0"
    by (simp add: holds_id_def oneMasterUp_eq emptyPair_def) (simp add: upEntry_def newEntry_def)
  have h1: "\<not> holds_id oneMasterUp id_1_1"
    by (simp add: holds_id_def oneMasterUp_eq emptyPair_def)
       (simp add: upEntry_def newEntry_def id_1_0_def id_1_1_def)
  have len: "length (serverList oneMasterUp) = 2"
    by (simp add: oneMasterUp_eq)
  show ?thesis
    using unknown_server_exactly [OF reach, of id_1_0 0 2]
      unknown_server_exactly [OF reach, of id_1_1 0 1]
      h0 h1 len r
    by simp
qed

end
